theory Spec2Isabelle
  imports Main "HOL-Library.AList"
begin

section \<open>JavaScript values\<close>

text \<open>
  The data of \<^verbatim>\<open>lib/syncMachines.js\<close>: the desired-state document arrives as parsed JSON,
  the manifest \<^verbatim>\<open>package.json\<close> is read with \<^verbatim>\<open>JSON.parse\<close>. A JSON object is the list
  of its own properties in enumeration order; numbers are the integers that a double
  holds exactly and prints in full; characters are bytes. The reordering of keys that
  look like array indices, and an object with a numeric \<^verbatim>\<open>length\<close> (which lodash walks as
  an array) are outside the model.
\<close>

datatype json =
    JNull
  | JBool bool
  | JNum int
  | JStr string
  | JArr "json list"
  | JObj "(string \<times> json) list"

text \<open>Errors thrown by the file system calls, by \<^verbatim>\<open>JSON.parse\<close>, by a property access on
  \<^verbatim>\<open>undefined\<close>, and the error of a failed \<^verbatim>\<open>npm update\<close>.\<close>

datatype error =
    ENOENT | ENOTDIR | EISDIR | EEXIST
  | SyntaxError | TypeError | InstallError

section \<open>Strings and serialisation\<close>

text \<open>\<^verbatim>\<open>s.split(':')\<close>: the pieces between the separators, at least one.\<close>

fun split_on :: "char \<Rightarrow> string \<Rightarrow> string list" where
  "split_on c [] = [[]]"
| "split_on c (x # xs) =
     (if x = c then [] # split_on c xs
      else (case split_on c xs of
              [] \<Rightarrow> [[x]]
            | y # ys \<Rightarrow> (x # y) # ys))"

text \<open>\<^verbatim>\<open>_master.split(':')[0]\<close> and \<^verbatim>\<open>_master.split(':')[1]\<close>; the second is
  \<^verbatim>\<open>undefined\<close> when the key has no colon.\<close>

definition master_of :: "string \<Rightarrow> string" where
  "master_of k = (case split_on (CHR '':'') k of [] \<Rightarrow> [] | m # r \<Rightarrow> m)"

definition version_of :: "string \<Rightarrow> string option" where
  "version_of k = (case split_on (CHR '':'') k of m # v # r \<Rightarrow> Some v | _ \<Rightarrow> None)"

fun join :: "string \<Rightarrow> string list \<Rightarrow> string" where
  "join sep [] = []"
| "join sep [x] = x"
| "join sep (x # y # ys) = x @ sep @ join sep (y # ys)"

definition digit :: "nat \<Rightarrow> char" where
  "digit n = char_of (48 + n)"

fun show_nat :: "nat \<Rightarrow> string" where
  "show_nat n = (if n < 10 then [digit n] else show_nat (n div 10) @ [digit (n mod 10)])"

declare show_nat.simps [simp del]

definition show_int :: "int \<Rightarrow> string" where
  "show_int i = (if i < 0 then CHR ''-'' # show_nat (nat (- i)) else show_nat (nat i))"

definition hexdigit :: "nat \<Rightarrow> char" where
  "hexdigit n = char_of (if n < 10 then 48 + n else 87 + n)"

text \<open>The escapes of \<^verbatim>\<open>JSON.stringify\<close> inside a string: the quote, the backslash, and
  the control characters.\<close>

definition esc :: "char \<Rightarrow> string" where
  "esc c =
     (if c = CHR 0x22 then [CHR 0x5C, CHR 0x22]
      else if c = CHR 0x5C then [CHR 0x5C, CHR 0x5C]
      else if c = CHR 0x08 then [CHR 0x5C, CHR ''b'']
      else if c = CHR 0x0C then [CHR 0x5C, CHR ''f'']
      else if c = CHR 0x0A then [CHR 0x5C, CHR ''n'']
      else if c = CHR 0x0D then [CHR 0x5C, CHR ''r'']
      else if c = CHR 0x09 then [CHR 0x5C, CHR ''t'']
      else if (of_char c :: nat) < 32
        then [CHR 0x5C, CHR ''u'', CHR ''0'', CHR ''0'',
              hexdigit (of_char c div 16), hexdigit (of_char c mod 16)]
      else [c])"

definition quote :: "string \<Rightarrow> string" where
  "quote s = CHR 0x22 # concat (map esc s) @ [CHR 0x22]"

text \<open>\<^verbatim>\<open>JSON.stringify(v)\<close> with no indentation.\<close>

fun stringify :: "json \<Rightarrow> string" where
  "stringify JNull = ''null''"
| "stringify (JBool b) = (if b then ''true'' else ''false'')"
| "stringify (JNum i) = show_int i"
| "stringify (JStr s) = quote s"
| "stringify (JArr xs) = ''['' @ join '','' (map stringify xs) @ '']''"
| "stringify (JObj kvs) =
     ''{'' @ join '','' (map (\<lambda>kv. quote (fst kv) @ '':'' @ stringify (snd kv)) kvs) @ ''}''"

text \<open>The string that \<^verbatim>\<open>'fn:' + val\<close> appends for a value.\<close>

fun to_string :: "json \<Rightarrow> string" where
  "to_string JNull = ''null''"
| "to_string (JBool b) = (if b then ''true'' else ''false'')"
| "to_string (JNum i) = show_int i"
| "to_string (JStr s) = s"
| "to_string (JArr xs) = join '','' (map (\<lambda>x. if x = JNull then [] else to_string x) xs)"
| "to_string (JObj kvs) = ''[object Object]''"

text \<open>What \<^verbatim>\<open>!v\<close> tests.\<close>

fun truthy :: "json \<Rightarrow> bool" where
  "truthy JNull = False"
| "truthy (JBool b) = b"
| "truthy (JNum i) = (i \<noteq> 0)"
| "truthy (JStr s) = (s \<noteq> [])"
| "truthy (JArr xs) = True"
| "truthy (JObj kvs) = True"

text \<open>\<^verbatim>\<open>obj[k] = v\<close> on an object that was built from a literal: the name \<^verbatim>\<open>__proto__\<close>
  is the setter of the prototype, which stores nothing for a string or \<^verbatim>\<open>undefined\<close>.\<close>

definition set_prop :: "string \<Rightarrow> 'a \<Rightarrow> (string \<times> 'a) list \<Rightarrow> (string \<times> 'a) list" where
  "set_prop k v obj = (if k = ''__proto__'' then obj else AList.update k v obj)"

text \<open>\<^verbatim>\<open>v.k\<close>: a \<open>TypeError\<close> on \<^verbatim>\<open>null\<close>, \<^verbatim>\<open>undefined\<close> where there is no such property.\<close>

definition get_prop :: "json \<Rightarrow> string \<Rightarrow> error + json option" where
  "get_prop v k =
     (case v of
        JNull \<Rightarrow> Inl TypeError
      | JObj kvs \<Rightarrow> Inr (map_of kvs k)
      | _ \<Rightarrow> Inr None)"

section \<open>The file system\<close>

text \<open>
  A path is the list of its components below \<^verbatim>\<open>process.cwd()\<close>, which is a directory. An
  entry is a directory or a regular file, which holds a text. The tree is the list of
  its entries; \<open>writes\<close> records every mutation that was carried out, in order. Names
  are compared as they are written, as a POSIX file system that tells upper from lower
  case does. The calls fail as those of Node do there for a path that is absent, is a
  file or is a directory; links, the limits on the length of a name, failures of the
  device or of permissions are outside the model, and so is what \<^verbatim>\<open>npm update\<close> does to
  the tree.
\<close>

type_synonym path = "string list"

datatype content = Text string

datatype node = File content | Dir

datatype fsop =
    Mkdir path
  | WriteFile path content
  | Unlink path
  | Rmtree path

record disk =
  tree :: "(path \<times> node) list"
  writes :: "fsop list"

definition node_at :: "disk \<Rightarrow> path \<Rightarrow> node option" where
  "node_at d p = (if p = [] then Some Dir else map_of (tree d) p)"

text \<open>The code of the error for a path that does not resolve: the nearest ancestor that
  exists is a file (\<open>ENOTDIR\<close>) or a directory (\<open>ENOENT\<close>). The argument is the reversed
  parent path.\<close>

fun missing_up :: "disk \<Rightarrow> path \<Rightarrow> error" where
  "missing_up d [] = ENOENT"
| "missing_up d (x # r) =
     (case node_at d (rev (x # r)) of
        Some (File c) \<Rightarrow> ENOTDIR
      | Some Dir \<Rightarrow> ENOENT
      | None \<Rightarrow> missing_up d r)"

definition missing :: "disk \<Rightarrow> path \<Rightarrow> error" where
  "missing d p = missing_up d (rev (butlast p))"

definition mkdirSync :: "path \<Rightarrow> disk \<Rightarrow> error + disk" where
  "mkdirSync p d =
     (case node_at d p of
        Some n \<Rightarrow> Inl EEXIST
      | None \<Rightarrow>
          (if node_at d (butlast p) = Some Dir
           then Inr (d\<lparr>tree := tree d @ [(p, Dir)], writes := writes d @ [Mkdir p]\<rparr>)
           else Inl (missing d p)))"

text \<open>\<^verbatim>\<open>fs.mkdirsSync\<close> of fs-extra makes the missing ancestors too.\<close>

fun mkdirs_from :: "path \<Rightarrow> path \<Rightarrow> disk \<Rightarrow> error + disk" where
  "mkdirs_from done [] d = Inr d"
| "mkdirs_from done (x # r) d =
     (case node_at d (done @ [x]) of
        Some (File c) \<Rightarrow> Inl (if r = [] then EEXIST else ENOTDIR)
      | Some Dir \<Rightarrow> mkdirs_from (done @ [x]) r d
      | None \<Rightarrow>
          mkdirs_from (done @ [x]) r
            (d\<lparr>tree := tree d @ [(done @ [x], Dir)], writes := writes d @ [Mkdir (done @ [x])]\<rparr>))"

definition mkdirsSync :: "path \<Rightarrow> disk \<Rightarrow> error + disk" where
  "mkdirsSync p d = mkdirs_from [] p d"

definition readdirSync :: "path \<Rightarrow> disk \<Rightarrow> error + string list" where
  "readdirSync p d =
     (case node_at d p of
        None \<Rightarrow> Inl (missing d p)
      | Some (File c) \<Rightarrow> Inl ENOTDIR
      | Some Dir \<Rightarrow> Inr (map (last \<circ> fst) (filter (\<lambda>(q, n). q \<noteq> [] \<and> butlast q = p) (tree d))))"

definition readFileSync :: "path \<Rightarrow> disk \<Rightarrow> error + content" where
  "readFileSync p d =
     (case node_at d p of
        None \<Rightarrow> Inl (missing d p)
      | Some Dir \<Rightarrow> Inl EISDIR
      | Some (File c) \<Rightarrow> Inr c)"

definition writeFileSync :: "path \<Rightarrow> content \<Rightarrow> disk \<Rightarrow> error + disk" where
  "writeFileSync p c d =
     (case node_at d p of
        Some Dir \<Rightarrow> Inl EISDIR
      | Some (File c') \<Rightarrow>
          Inr (d\<lparr>tree := AList.update p (File c) (tree d), writes := writes d @ [WriteFile p c]\<rparr>)
      | None \<Rightarrow>
          (if node_at d (butlast p) = Some Dir
           then Inr (d\<lparr>tree := AList.update p (File c) (tree d),
                       writes := writes d @ [WriteFile p c]\<rparr>)
           else Inl (missing d p)))"

definition unlinkSync :: "path \<Rightarrow> disk \<Rightarrow> error + disk" where
  "unlinkSync p d =
     (case node_at d p of
        None \<Rightarrow> Inl (missing d p)
      | Some Dir \<Rightarrow> Inl EISDIR
      | Some (File c) \<Rightarrow>
          Inr (d\<lparr>tree := AList.delete p (tree d), writes := writes d @ [Unlink p]\<rparr>))"

text \<open>\<^verbatim>\<open>wrench.rmdirSyncRecursive(p, true)\<close>: with \<open>failSilent\<close> set, a path that cannot be
  listed (absent, or a file) is left alone; a directory goes with everything below it.\<close>

definition rmdirSyncRecursive :: "path \<Rightarrow> disk \<Rightarrow> disk" where
  "rmdirSyncRecursive p d =
     (case readdirSync p d of
        Inl e \<Rightarrow> d
      | Inr names \<Rightarrow>
          d\<lparr>tree := filter (\<lambda>(q, n). take (length p) q \<noteq> p) (tree d),
            writes := writes d @ [Rmtree p]\<rparr>)"

section \<open>The desired state and the arguments\<close>

record packspec =
  machines :: "(string \<times> (string \<times> json) list) list"
  dependencies :: "json option"

type_synonym desired = "(string \<times> packspec) list"

record options =
  export :: bool

text \<open>An argument of \<open>cleanPacks\<close> is a function, named by a number, or a value.\<close>

datatype 'a arg = Fn nat | Val 'a

definition machinesDir :: "options \<Rightarrow> path" where
  "machinesDir opts = (if export opts then [] else [''node_modules'', ''yarr'']) @ [''node_machines'']"

section \<open>cleanPacks\<close>

definition difference :: "'a list \<Rightarrow> 'a list \<Rightarrow> 'a list" where
  "difference xs ys = filter (\<lambda>x. x \<notin> set ys) xs"

text \<open>The argument shuffle at the head of \<open>cleanPacks\<close>: the options, the document and the
  callback that the body then uses. A function in the place of the options has no
  \<open>export\<close> property.\<close>

definition cleanPacks_args ::
  "options arg \<Rightarrow> desired arg \<Rightarrow> nat option \<Rightarrow> options \<times> desired \<times> nat option" where
  "cleanPacks_args opts data cb =
     (case data of
        Fn f \<Rightarrow> ((case opts of Val v \<Rightarrow> v | Fn g \<Rightarrow> \<lparr>export = False\<rparr>), [], Some f)
      | Val dat \<Rightarrow>
          (case opts of
             Fn g \<Rightarrow> (\<lparr>export = False\<rparr>, [], Some g)
           | Val v \<Rightarrow> (v, dat, cb)))"

text \<open>The body of \<open>cleanPacks\<close> up to the call of the callback.\<close>

definition prune :: "options \<Rightarrow> desired \<Rightarrow> disk \<Rightarrow> error + disk" where
  "prune opts dat d =
     (let curDirs = map fst dat;
          d1 = (case mkdirsSync (machinesDir opts) d of Inl e \<Rightarrow> d | Inr d' \<Rightarrow> d')
      in case readdirSync (machinesDir opts) d1 of
           Inl e \<Rightarrow> Inl e
         | Inr curMachinePacks \<Rightarrow>
             Inr (fold (\<lambda>dir. rmdirSyncRecursive (machinesDir opts @ [dir]))
                    (difference curMachinePacks curDirs) d1))"

text \<open>\<open>cleanPacks\<close> returns the disk and the call it ends with: the callback and the error
  handed to it (none). A callback that is not there makes the call a \<open>TypeError\<close>.\<close>

definition cleanPacks ::
  "options arg \<Rightarrow> desired arg \<Rightarrow> nat option \<Rightarrow> disk \<Rightarrow> error + (disk \<times> nat \<times> error option)" where
  "cleanPacks opts data cb d =
     (case cleanPacks_args opts data cb of
        (opts', dat, cb') \<Rightarrow>
          (case prune opts' dat d of
             Inl e \<Rightarrow> Inl e
           | Inr d' \<Rightarrow>
               (case cb' of
                  None \<Rightarrow> Inl TypeError
                | Some f \<Rightarrow> Inr (d', f, None))))"

text \<open>The pack subdirectories under the cache root.\<close>

definition pack_dirs :: "options \<Rightarrow> disk \<Rightarrow> string set" where
  "pack_dirs opts d = {n. node_at d (machinesDir opts @ [n]) = Some Dir}"

section \<open>writePacks\<close>

text \<open>
  \<open>beautify\<close> stands for \<^verbatim>\<open>js_beautify(s, {indent_size: 2})\<close> and \<open>parse\<close> for
  \<^verbatim>\<open>JSON.parse\<close>, which gives \<open>None\<close> where \<^verbatim>\<open>JSON.parse\<close> throws its \<open>SyntaxError\<close>; both
  are arguments of the model, and nothing is assumed of either. \<^verbatim>\<open>path.join\<close> appends the
  name it is given as one component: that is what it does for a name that is not empty,
  is not \<^verbatim>\<open>.\<close> or \<^verbatim>\<open>..\<close> and has no \<^verbatim>\<open>/\<close> in it.
\<close>

text \<open>The text of a unit file before it is beautified.\<close>

definition render_field :: "string \<times> json \<Rightarrow> string" where
  "render_field kv =
     (case kv of (key, val) \<Rightarrow>
        if key = ''fn'' then ''fn:'' @ to_string val
        else if key = ''name'' then ''identity: '' @ stringify val
        else key @ '': '' @ stringify val)"

definition render :: "(string \<times> json) list \<Rightarrow> string" where
  "render machineDef =
     ''module.exports={'' @ [CHR 0x0A] @ join ('','' @ [CHR 0x0A]) (map render_field machineDef) @ ''}''"

definition index_stub :: string where
  "index_stub =
     ''module.exports = require('' @ [CHR 0x27] @ ''node-machine'' @ [CHR 0x27] @
     '').pack({pkg: require('' @ [CHR 0x27] @ ''./package.json'' @ [CHR 0x27] @
     ''), dir: __dirname});''"

text \<open>The manifest the code builds, \<open>newPackageJson\<close>: a version is \<^verbatim>\<open>undefined\<close> when the
  unit key has no colon, the dependencies are \<^verbatim>\<open>undefined\<close> when the pack has none.\<close>

record manifest =
  deps :: "json option"
  machine_list :: "string list"
  machineVersions :: "(string \<times> string option) list"

text \<open>The value \<^verbatim>\<open>JSON.stringify\<close> sees: properties that are \<^verbatim>\<open>undefined\<close> are left out.\<close>

definition manifest_json :: "manifest \<Rightarrow> json" where
  "manifest_json m =
     JObj ((case deps m of None \<Rightarrow> [] | Some v \<Rightarrow> [(''dependencies'', v)]) @
       [(''machinepack'',
          JObj [(''machines'', JArr (map JStr (machine_list m))),
                (''machineVersions'',
                  JObj (concat (map (\<lambda>kv. case snd kv of None \<Rightarrow> [] | Some v \<Rightarrow> [(fst kv, JStr v)])
                                  (machineVersions m))))])])"

text \<open>The manifest that stands in for a missing \<^verbatim>\<open>package.json\<close>.\<close>

definition empty_manifest :: json where
  "empty_manifest =
     JObj [(''machinepack'', JObj [(''machines'', JArr []), (''machineVersions'', JObj [])])]"

text \<open>Lines 107 to 118: read the manifest and parse it; only a missing file is caught.\<close>

definition load_manifest :: "(string \<Rightarrow> json option) \<Rightarrow> path \<Rightarrow> disk \<Rightarrow> error + json" where
  "load_manifest parse dir d =
     (case readFileSync (dir @ [''package.json'']) d of
        Inr (Text s) \<Rightarrow> (case parse s of None \<Rightarrow> Inl SyntaxError | Some v \<Rightarrow> Inr v)
      | Inl e \<Rightarrow> (if e = ENOENT then Inr empty_manifest else Inl e))"

text \<open>The own enumerable properties of a value, which \<^verbatim>\<open>Object.keys\<close> lists: the
  properties of an object, the elements of an array and the characters of a string
  under their indices, none on a number or a boolean; on \<^verbatim>\<open>null\<close> it is a \<open>TypeError\<close>.\<close>

definition own_props :: "json \<Rightarrow> error + (string \<times> json) list" where
  "own_props v =
     (case v of
        JNull \<Rightarrow> Inl TypeError
      | JBool b \<Rightarrow> Inr []
      | JNum n \<Rightarrow> Inr []
      | JStr s \<Rightarrow> Inr (zip (map show_nat [0..<length s]) (map (\<lambda>c. JStr [c]) s))
      | JArr xs \<Rightarrow> Inr (zip (map show_nat [0..<length xs]) xs)
      | JObj kvs \<Rightarrow> Inr kvs)"

text \<open>\<^verbatim>\<open>packageJson.machinepack.machineVersions\<close>, as the properties whose keys line 124
  lists; a \<open>TypeError\<close> where \<^verbatim>\<open>machinepack\<close> or \<^verbatim>\<open>machineVersions\<close> is missing.\<close>

definition machineVersions_of :: "json \<Rightarrow> error + (string \<times> json) list" where
  "machineVersions_of pj =
     (case get_prop pj ''machinepack'' of
        Inl e \<Rightarrow> Inl e
      | Inr None \<Rightarrow> Inl TypeError
      | Inr (Some mp) \<Rightarrow>
          (case get_prop mp ''machineVersions'' of
             Inl e \<Rightarrow> Inl e
           | Inr None \<Rightarrow> Inl TypeError
           | Inr (Some v) \<Rightarrow> own_props v))"

text \<open>The test of line 137:
  \<^verbatim>\<open>!mv[master] || mv[master] !== version\<close>. A name that \<open>mv\<close> has no property of its own
  for reads as \<^verbatim>\<open>undefined\<close> or, when the prototype has it, as a value that is no string
  (a function, an object, the length of an array): the test is true either way, as it
  is here for \<open>None\<close>.\<close>

definition strict_neq :: "json option \<Rightarrow> string option \<Rightarrow> bool" where
  "strict_neq v version =
     (case v of
        None \<Rightarrow> version \<noteq> None
      | Some j \<Rightarrow> (case version of None \<Rightarrow> True | Some s \<Rightarrow> j \<noteq> JStr s))"

definition needs_write :: "(string \<times> json) list \<Rightarrow> string \<Rightarrow> string option \<Rightarrow> bool" where
  "needs_write mv master version =
     ((case map_of mv master of None \<Rightarrow> True | Some j \<Rightarrow> \<not> truthy j)
      \<or> strict_neq (map_of mv master) version)"

text \<open>What a block of the code leaves: it returned a value, or it threw.\<close>

datatype 'a outcome = Returned 'a | Thrown error

fun unlink_all :: "path list \<Rightarrow> disk \<Rightarrow> disk \<times> unit outcome" where
  "unlink_all [] d = (d, Returned ())"
| "unlink_all (p # ps) d =
     (case unlinkSync p d of
        Inl e \<Rightarrow> (d, Thrown e)
      | Inr d' \<Rightarrow> unlink_all ps d')"

text \<open>The loop over the units of the pack, lines 132 to 148.\<close>

fun write_units ::
  "(string \<Rightarrow> string) \<Rightarrow> path \<Rightarrow> (string \<times> json) list \<Rightarrow>
   (string \<times> (string \<times> json) list) list \<Rightarrow> manifest \<Rightarrow> disk \<Rightarrow> disk \<times> manifest outcome" where
  "write_units beautify dir mv [] new d = (d, Returned new)"
| "write_units beautify dir mv ((key, machineDef) # rest) new d =
     (let master = master_of key;
          version = version_of key;
          new' = new\<lparr>machineVersions := set_prop master version (machineVersions new),
                     machine_list := machine_list new @ [master]\<rparr>
      in if needs_write mv master version
         then (case writeFileSync (dir @ [master @ ''.js'']) (Text (beautify (render machineDef))) d of
                 Inl e \<Rightarrow> (d, Thrown e)
               | Inr d' \<Rightarrow> write_units beautify dir mv rest new' d')
         else write_units beautify dir mv rest new' d)"

text \<open>\<^verbatim>\<open>try { fs.mkdirSync(dir) } catch (e) {}\<close>\<close>

definition ensure_dir :: "path \<Rightarrow> disk \<Rightarrow> disk" where
  "ensure_dir dir d = (case mkdirSync dir d of Inl e \<Rightarrow> d | Inr d' \<Rightarrow> d')"

text \<open>Lines 101 to 148 for one pack: make the directory, load the manifest, unlink the
  units that left the pack, write the units. It returns the manifest that was loaded and
  the one that was built.\<close>

definition units_phase ::
  "(string \<Rightarrow> json option) \<Rightarrow> (string \<Rightarrow> string) \<Rightarrow> path \<Rightarrow> string \<Rightarrow> packspec \<Rightarrow> disk \<Rightarrow>
   disk \<times> (json \<times> manifest) outcome" where
  "units_phase parse beautify mdir machineDir spec d =
     (let dir = mdir @ [machineDir];
          d1 = ensure_dir dir d
      in case load_manifest parse dir d1 of
           Inl e \<Rightarrow> (d1, Thrown e)
         | Inr packageJson \<Rightarrow>
      (let newMasters = map (\<lambda>kv. master_of (fst kv)) (machines spec)
       in case machineVersions_of packageJson of
            Inl e \<Rightarrow> (d1, Thrown e)
          | Inr mv \<Rightarrow>
      (let mastersToDelete = difference (map fst mv) newMasters
       in case unlink_all (map (\<lambda>master. mdir @ [master @ ''.js'']) mastersToDelete) d1 of
            (d2, Thrown e) \<Rightarrow> (d2, Thrown e)
          | (d2, Returned u) \<Rightarrow>
      (case write_units beautify dir mv (machines spec)
              \<lparr>deps = dependencies spec, machine_list = [], machineVersions = []\<rparr> d2 of
         (d3, Thrown e) \<Rightarrow> (d3, Thrown e)
       | (d3, Returned new) \<Rightarrow> (d3, Returned (packageJson, new))))))"

text \<open>How the iterator of \<open>writePacks\<close> ends for one pack: it called its callback at once,
  or it pushed the pack's directory onto the install queue with that callback.\<close>

datatype ending = Unchanged | Pushed path

text \<open>Lines 149 to 157: compare the two manifests as beautified text; write that text
  as the manifest, write the index file and push the install when they differ.\<close>

definition manifest_phase ::
  "(string \<Rightarrow> string) \<Rightarrow> path \<Rightarrow> json \<Rightarrow> manifest \<Rightarrow> disk \<Rightarrow> disk \<times> ending outcome" where
  "manifest_phase beautify dir packageJson new d3 =
     (if beautify (stringify (manifest_json new)) = beautify (stringify packageJson)
      then (d3, Returned Unchanged)
      else (case writeFileSync (dir @ [''package.json''])
                   (Text (beautify (stringify (manifest_json new)))) d3 of
              Inl e \<Rightarrow> (d3, Thrown e)
            | Inr d4 \<Rightarrow>
                (case writeFileSync (dir @ [''index.js'']) (Text index_stub) d4 of
                   Inl e \<Rightarrow> (d4, Thrown e)
                 | Inr d5 \<Rightarrow> (d5, Returned (Pushed dir)))))"

definition writePack ::
  "(string \<Rightarrow> json option) \<Rightarrow> (string \<Rightarrow> string) \<Rightarrow> path \<Rightarrow> string \<Rightarrow> packspec \<Rightarrow> disk \<Rightarrow>
   disk \<times> ending outcome" where
  "writePack parse beautify mdir machineDir spec d =
     (case units_phase parse beautify mdir machineDir spec d of
        (d3, Thrown e) \<Rightarrow> (d3, Thrown e)
      | (d3, Returned (packageJson, new)) \<Rightarrow>
          manifest_phase beautify (mdir @ [machineDir]) packageJson new d3)"

section \<open>The install queue and the completion callback\<close>

text \<open>
  \<^verbatim>\<open>sails.npmQueue\<close> is an \<^verbatim>\<open>async.queue\<close> with one worker. \<open>tasks\<close> are the tasks pushed
  and not yet started, \<open>running\<close> is the one whose \<^verbatim>\<open>npm update\<close> is in flight,
  \<open>maintenance\<close> is \<^verbatim>\<open>sails.config.maintenance\<close>. A push only appends the task and
  schedules a call of the queue's \<open>process\<close>; the worker, which raises the flag, runs
  in that later call.
\<close>

record 'a queue =
  tasks :: "'a list"
  running :: "'a option"
  maintenance :: bool

definition queue0 :: "'a queue" where
  "queue0 = \<lparr>tasks = [], running = None, maintenance = False\<rparr>"

definition push :: "'a \<Rightarrow> 'a queue \<Rightarrow> 'a queue" where
  "push cwd q = q\<lparr>tasks := tasks q @ [cwd]\<rparr>"

definition process :: "'a queue \<Rightarrow> 'a queue" where
  "process q =
     (case running q of
        Some t \<Rightarrow> q
      | None \<Rightarrow>
          (case tasks q of
             [] \<Rightarrow> q
           | cwd # rest \<Rightarrow> q\<lparr>tasks := rest, running := Some cwd, maintenance := True\<rparr>))"

text \<open>The end of the running \<^verbatim>\<open>npm update\<close>: after the task's callback, \<open>drain\<close> when
  nothing is left, then \<open>process\<close> again.\<close>

definition finish :: "'a queue \<Rightarrow> 'a queue" where
  "finish q =
     (let q1 = q\<lparr>running := None\<rparr>;
          q2 = (if tasks q1 = [] then q1\<lparr>maintenance := False\<rparr> else q1)
      in process q2)"

text \<open>What can happen to the queue: a push, a scheduled \<open>process\<close>, the exit of the
  \<^verbatim>\<open>npm update\<close> in flight.\<close>

datatype 'a qevent = Enqueue 'a | Process | Exited

definition qstep :: "'a qevent \<Rightarrow> 'a queue \<Rightarrow> 'a queue" where
  "qstep ev q =
     (case ev of
        Enqueue cwd \<Rightarrow> push cwd q
      | Process \<Rightarrow> process q
      | Exited \<Rightarrow> (case running q of None \<Rightarrow> q | Some t \<Rightarrow> finish q))"

text \<open>The values of the flag after each event of a run.\<close>

fun flag_trace :: "'a qevent list \<Rightarrow> 'a queue \<Rightarrow> bool list" where
  "flag_trace [] q = []"
| "flag_trace (ev # evs) q = maintenance (qstep ev q) # flag_trace evs (qstep ev q)"

text \<open>
  The bookkeeping of one call of \<^verbatim>\<open>async.each\<close>: \<open>total\<close> items, \<open>completed\<close> of them, and
  the calls made to the completion callback that \<open>writePacks\<close> was given, with their
  error argument. After an error the callback is replaced by an empty function
  (\<open>fired\<close>).
\<close>

record each_state =
  total :: nat
  completed :: nat
  fired :: bool
  calls :: "error option list"

definition each_done :: "error option \<Rightarrow> each_state \<Rightarrow> each_state" where
  "each_done err es =
     (case err of
        Some e \<Rightarrow> (if fired es then es else es\<lparr>fired := True, calls := calls es @ [Some e]\<rparr>)
      | None \<Rightarrow>
          (let es' = es\<lparr>completed := completed es + 1\<rparr>
           in if completed es' \<ge> total es' \<and> \<not> fired es'
              then es'\<lparr>calls := calls es' @ [None]\<rparr>
              else es'))"

text \<open>
  A task of the queue is what line 157 pushes: the directory of the pack, and the
  callback of the iterator, which belongs to the call of \<open>writePacks\<close> that pushed it.
  The calls of \<open>writePacks\<close> are numbered as they are made.
\<close>

record task =
  task_cwd :: path
  task_cb :: nat

text \<open>\<open>each_of\<close> is the bookkeeping of the latest call of \<open>writePacks\<close>, \<open>earlier\<close> are those
  of the calls before it, the oldest first; so the number of the latest call is the
  length of \<open>earlier\<close>.\<close>

record world =
  disk_of :: disk
  queue_of :: "task queue"
  each_of :: each_state
  earlier :: "each_state list"

text \<open>The iterator of \<open>writePacks\<close> on one pack. The callback of the pushed task is the
  iterator's own callback (line 157).\<close>

definition iterator ::
  "(string \<Rightarrow> json option) \<Rightarrow> (string \<Rightarrow> string) \<Rightarrow> options \<Rightarrow> string \<times> packspec \<Rightarrow> world \<Rightarrow>
   world \<times> unit outcome" where
  "iterator parse beautify opts item w =
     (case writePack parse beautify (machinesDir opts) (fst item) (snd item) (disk_of w) of
        (d, Thrown e) \<Rightarrow> (w\<lparr>disk_of := d\<rparr>, Thrown e)
      | (d, Returned Unchanged) \<Rightarrow>
          (w\<lparr>disk_of := d, each_of := each_done None (each_of w)\<rparr>, Returned ())
      | (d, Returned (Pushed cwd)) \<Rightarrow>
          (w\<lparr>disk_of := d,
              queue_of := push \<lparr>task_cwd = cwd, task_cb = length (earlier w)\<rparr> (queue_of w)\<rparr>,
           Returned ()))"

text \<open>\<^verbatim>\<open>async.each\<close> calls the iterator on the keys in turn; an exception thrown by the
  iterator leaves the loop.\<close>

fun each_loop ::
  "(string \<Rightarrow> json option) \<Rightarrow> (string \<Rightarrow> string) \<Rightarrow> options \<Rightarrow> desired \<Rightarrow> world \<Rightarrow>
   world \<times> unit outcome" where
  "each_loop parse beautify opts [] w = (w, Returned ())"
| "each_loop parse beautify opts (item # rest) w =
     (case iterator parse beautify opts item w of
        (w', Thrown e) \<Rightarrow> (w', Thrown e)
      | (w', Returned u) \<Rightarrow> each_loop parse beautify opts rest w')"

text \<open>A new call of \<^verbatim>\<open>async.each\<close> on \<open>n\<close> items, with a completion callback of its own.\<close>

definition begin_each :: "nat \<Rightarrow> world \<Rightarrow> world" where
  "begin_each n w =
     w\<lparr>earlier := earlier w @ [each_of w],
        each_of := \<lparr>total = n, completed = 0, fired = False, calls = []\<rparr>\<rparr>"

definition writePacks ::
  "(string \<Rightarrow> json option) \<Rightarrow> (string \<Rightarrow> string) \<Rightarrow> options \<Rightarrow> desired \<Rightarrow> world \<Rightarrow>
   world \<times> unit outcome" where
  "writePacks parse beautify opts dat w =
     (let w0 = begin_each (length dat) w
      in if dat = [] then (w0\<lparr>each_of := (each_of w0)\<lparr>calls := [None]\<rparr>\<rparr>, Returned ())
         else each_loop parse beautify opts dat w0)"

text \<open>\<open>reloadAllMachinePacks\<close> once the document has arrived: \<open>cleanPacks\<close>, and from its
  callback \<open>writePacks\<close> with the completion callback of the caller.\<close>

definition reloadAllMachinePacks ::
  "(string \<Rightarrow> json option) \<Rightarrow> (string \<Rightarrow> string) \<Rightarrow> options \<Rightarrow> desired \<Rightarrow> world \<Rightarrow>
   world \<times> unit outcome" where
  "reloadAllMachinePacks parse beautify opts dat w =
     (case cleanPacks (Val opts) (Val dat) (Some 0) (disk_of w) of
        Inl e \<Rightarrow> (w, Thrown e)
      | Inr (d, f, err) \<Rightarrow>
          (case err of
             Some e \<Rightarrow>
               (let w0 = begin_each 0 (w\<lparr>disk_of := d\<rparr>)
                in (w0\<lparr>each_of := (each_of w0)\<lparr>fired := True, calls := [Some e]\<rparr>\<rparr>, Returned ()))
           | None \<Rightarrow> writePacks parse beautify opts dat (w\<lparr>disk_of := d\<rparr>)))"

text \<open>The callback of a task is called with the error of its \<^verbatim>\<open>npm update\<close>: that is a
  step of the bookkeeping of the call of \<open>writePacks\<close> that pushed the task.\<close>

definition deliver :: "nat \<Rightarrow> error option \<Rightarrow> world \<Rightarrow> world" where
  "deliver n err w =
     (if n = length (earlier w) then w\<lparr>each_of := each_done err (each_of w)\<rparr>
      else if n < length (earlier w)
      then w\<lparr>earlier := (earlier w)[n := each_done err (earlier w ! n)]\<rparr>
      else w)"

text \<open>What happens later: a scheduled \<open>process\<close> runs, or the \<^verbatim>\<open>npm update\<close> in flight
  exits, with an error or without. Its exit is handed to the callback of the task; then
  the queue goes on.\<close>

datatype event = Tick | Exit "error option"

definition step :: "event \<Rightarrow> world \<Rightarrow> world" where
  "step ev w =
     (case ev of
        Tick \<Rightarrow> w\<lparr>queue_of := process (queue_of w)\<rparr>
      | Exit err \<Rightarrow>
          (case running (queue_of w) of
             None \<Rightarrow> w
           | Some t \<Rightarrow> (deliver (task_cb t) err w)\<lparr>queue_of := finish (queue_of w)\<rparr>))"

definition run :: "event list \<Rightarrow> world \<Rightarrow> world" where
  "run evs w = fold step evs w"

text \<open>The world at the start: nothing is queued, and the bookkeeping is that of a call
  on no items.\<close>

definition world0 :: "disk \<Rightarrow> world" where
  "world0 d = \<lparr>disk_of = d, queue_of = queue0,
     each_of = \<lparr>total = 0, completed = 0, fired = False, calls = []\<rparr>, earlier = []\<rparr>"

section \<open>Example states\<close>

definition ex_opts :: options where
  "ex_opts = \<lparr>export = True\<rparr>"

text \<open>A cache root with two pack directories and a stray file.\<close>

definition ex_root :: disk where
  "ex_root =
     \<lparr>tree = [([''node_machines''], Dir),
              ([''node_machines'', ''a''], Dir),
              ([''node_machines'', ''a'', ''u.js''], File (Text ''x'')),
              ([''node_machines'', ''b''], Dir),
              ([''node_machines'', ''n''], File (Text ''x''))],
      writes = []\<rparr>"

definition ex_root_pruned :: disk where
  "ex_root_pruned =
     \<lparr>tree = [([''node_machines''], Dir),
              ([''node_machines'', ''a''], Dir),
              ([''node_machines'', ''a'', ''u.js''], File (Text ''x'')),
              ([''node_machines'', ''n''], File (Text ''x''))],
      writes = [Rmtree [''node_machines'', ''b'']]\<rparr>"

definition ex_doc_a :: desired where
  "ex_doc_a = [(''a'', \<lparr>machines = [], dependencies = None\<rparr>)]"

text \<open>An empty cache root, and a pack with one unit.\<close>

definition ex_empty :: disk where
  "ex_empty = \<lparr>tree = [([''node_machines''], Dir)], writes = []\<rparr>"

definition ex_spec_u :: packspec where
  "ex_spec_u = \<lparr>machines = [(''u:1'', [(''fn'', JStr ''f'')])], dependencies = None\<rparr>"

definition ex_doc_u :: desired where
  "ex_doc_u = [(''a'', ex_spec_u)]"

text \<open>A pack directory whose manifest is not JSON, and a document with a second pack.\<close>

definition ex_bad :: disk where
  "ex_bad =
     \<lparr>tree = [([''node_machines''], Dir),
              ([''node_machines'', ''a''], Dir),
              ([''node_machines'', ''a'', ''package.json''], File (Text ''{''))],
      writes = []\<rparr>"

definition ex_doc_ab :: desired where
  "ex_doc_ab = [(''a'', ex_spec_u), (''b'', ex_spec_u)]"

text \<open>A pack directory that holds the units \<open>u\<close> and \<open>v\<close>, with and without a file
  \<^verbatim>\<open>v.js\<close> in the cache root itself.\<close>

definition ex_manifest_u_v :: json where
  "ex_manifest_u_v =
     JObj [(''machinepack'',
        JObj [(''machines'', JArr [JStr ''u'', JStr ''v'']),
              (''machineVersions'', JObj [(''u'', JStr ''1''), (''v'', JStr ''1'')])])]"

text \<open>The manifests that the examples write, and a reader for the examples: it reads the
  texts of these manifests, as \<^verbatim>\<open>JSON.parse\<close> does, and no other text; the one other text
  that is read in the examples is \<^verbatim>\<open>{\<close>, which \<^verbatim>\<open>JSON.parse\<close> refuses.\<close>

definition ex_manifest_u :: json where
  "ex_manifest_u =
     JObj [(''machinepack'',
        JObj [(''machines'', JArr [JStr ''u'']),
              (''machineVersions'', JObj [(''u'', JStr ''1'')])])]"

definition ex_manifest_uu :: json where
  "ex_manifest_uu =
     JObj [(''machinepack'',
        JObj [(''machines'', JArr [JStr ''u'', JStr ''u'']),
              (''machineVersions'', JObj [(''u'', JStr ''2'')])])]"

definition parse_of :: "json list \<Rightarrow> string \<Rightarrow> json option" where
  "parse_of vs s = find (\<lambda>v. stringify v = s) vs"

definition ex_parse :: "string \<Rightarrow> json option" where
  "ex_parse = parse_of [ex_manifest_u, ex_manifest_uu, ex_manifest_u_v]"

definition ex_stale :: disk where
  "ex_stale =
     \<lparr>tree = [([''node_machines''], Dir),
              ([''node_machines'', ''v.js''], File (Text ''s'')),
              ([''node_machines'', ''a''], Dir),
              ([''node_machines'', ''a'', ''package.json''], File (Text (stringify ex_manifest_u_v))),
              ([''node_machines'', ''a'', ''u.js''], File (Text ''x'')),
              ([''node_machines'', ''a'', ''v.js''], File (Text ''y''))],
      writes = []\<rparr>"

definition ex_stale2 :: disk where
  "ex_stale2 =
     \<lparr>tree = [([''node_machines''], Dir),
              ([''node_machines'', ''a''], Dir),
              ([''node_machines'', ''a'', ''package.json''], File (Text (stringify ex_manifest_u_v))),
              ([''node_machines'', ''a'', ''u.js''], File (Text ''x'')),
              ([''node_machines'', ''a'', ''v.js''], File (Text ''y''))],
      writes = []\<rparr>"

text \<open>The world after the pack \<open>a\<close> with the unit \<open>u\<close> is reconciled into the empty cache;
  a document with one unit in two versions, and the world after it is reconciled.\<close>

definition ex_disk_u_done :: disk where
  "ex_disk_u_done =
     \<lparr>tree = [([''node_machines''], Dir),
              ([''node_machines'', ''a''], Dir),
              ([''node_machines'', ''a'', ''u.js''], File (Text (render [(''fn'', JStr ''f'')]))),
              ([''node_machines'', ''a'', ''package.json''],
                 File (Text (stringify ex_manifest_u))),
              ([''node_machines'', ''a'', ''index.js''], File (Text index_stub))],
      writes = [Mkdir [''node_machines'', ''a''],
                WriteFile [''node_machines'', ''a'', ''u.js''] (Text (render [(''fn'', JStr ''f'')])),
                WriteFile [''node_machines'', ''a'', ''package.json'']
                  (Text (stringify ex_manifest_u)),
                WriteFile [''node_machines'', ''a'', ''index.js''] (Text index_stub)]\<rparr>"

definition ex_world_u_done :: world where
  "ex_world_u_done =
     \<lparr>disk_of = ex_disk_u_done,
      queue_of = \<lparr>tasks = [\<lparr>task_cwd = [''node_machines'', ''a''], task_cb = 1\<rparr>],
                  running = None, maintenance = False\<rparr>,
      each_of = \<lparr>total = 1, completed = 0, fired = False, calls = []\<rparr>,
      earlier = [\<lparr>total = 0, completed = 0, fired = False, calls = []\<rparr>]\<rparr>"

definition ex_doc_twice :: desired where
  "ex_doc_twice =
     [(''a'', \<lparr>machines = [(''u:1'', [(''fn'', JStr ''f'')]), (''u:2'', [(''fn'', JStr ''g'')])],
              dependencies = None\<rparr>)]"

definition ex_disk_twice_done :: disk where
  "ex_disk_twice_done =
     \<lparr>tree = [([''node_machines''], Dir),
              ([''node_machines'', ''a''], Dir),
              ([''node_machines'', ''a'', ''u.js''], File (Text (render [(''fn'', JStr ''g'')]))),
              ([''node_machines'', ''a'', ''package.json''],
                 File (Text (stringify ex_manifest_uu))),
              ([''node_machines'', ''a'', ''index.js''], File (Text index_stub))],
      writes = [Mkdir [''node_machines'', ''a''],
                WriteFile [''node_machines'', ''a'', ''u.js''] (Text (render [(''fn'', JStr ''f'')])),
                WriteFile [''node_machines'', ''a'', ''u.js''] (Text (render [(''fn'', JStr ''g'')])),
                WriteFile [''node_machines'', ''a'', ''package.json'']
                  (Text (stringify ex_manifest_uu)),
                WriteFile [''node_machines'', ''a'', ''index.js''] (Text index_stub)]\<rparr>"

definition ex_world_twice_done :: world where
  "ex_world_twice_done =
     \<lparr>disk_of = ex_disk_twice_done,
      queue_of = \<lparr>tasks = [\<lparr>task_cwd = [''node_machines'', ''a''], task_cb = 1\<rparr>],
                  running = None, maintenance = False\<rparr>,
      each_of = \<lparr>total = 1, completed = 0, fired = False, calls = []\<rparr>,
      earlier = [\<lparr>total = 0, completed = 0, fired = False, calls = []\<rparr>]\<rparr>"

text \<open>A document of three packs, the second of which is the one whose manifest is not
  JSON; a world in which an install that an earlier call of \<open>writePacks\<close> pushed is
  still waiting; and that world when a second call has reconciled the first of the
  three packs.\<close>

definition ex_doc_bac :: desired where
  "ex_doc_bac = [(''b'', ex_spec_u), (''a'', ex_spec_u), (''c'', ex_spec_u)]"

definition ex_disk_b_done :: disk where
  "ex_disk_b_done =
     \<lparr>tree = [([''node_machines''], Dir),
              ([''node_machines'', ''a''], Dir),
              ([''node_machines'', ''a'', ''package.json''], File (Text ''{'')),
              ([''node_machines'', ''b''], Dir),
              ([''node_machines'', ''b'', ''u.js''], File (Text (render [(''fn'', JStr ''f'')]))),
              ([''node_machines'', ''b'', ''package.json''], File (Text (stringify ex_manifest_u))),
              ([''node_machines'', ''b'', ''index.js''], File (Text index_stub))],
      writes = [Mkdir [''node_machines'', ''b''],
                WriteFile [''node_machines'', ''b'', ''u.js''] (Text (render [(''fn'', JStr ''f'')])),
                WriteFile [''node_machines'', ''b'', ''package.json''] (Text (stringify ex_manifest_u)),
                WriteFile [''node_machines'', ''b'', ''index.js''] (Text index_stub)]\<rparr>"

definition ex_world_busy :: world where
  "ex_world_busy =
     \<lparr>disk_of = ex_bad,
      queue_of = \<lparr>tasks = [\<lparr>task_cwd = [''node_machines'', ''a''], task_cb = 1\<rparr>],
                  running = None, maintenance = False\<rparr>,
      each_of = \<lparr>total = 1, completed = 0, fired = False, calls = []\<rparr>,
      earlier = [\<lparr>total = 0, completed = 0, fired = False, calls = []\<rparr>]\<rparr>"

definition ex_world_b_done :: world where
  "ex_world_b_done =
     \<lparr>disk_of = ex_disk_b_done,
      queue_of = \<lparr>tasks = [\<lparr>task_cwd = [''node_machines'', ''a''], task_cb = 1\<rparr>,
                           \<lparr>task_cwd = [''node_machines'', ''b''], task_cb = 2\<rparr>],
                  running = None, maintenance = False\<rparr>,
      each_of = \<lparr>total = 3, completed = 0, fired = False, calls = []\<rparr>,
      earlier = [\<lparr>total = 0, completed = 0, fired = False, calls = []\<rparr>,
                 \<lparr>total = 1, completed = 0, fired = False, calls = []\<rparr>]\<rparr>"



section \<open>Notions used in the statements and proofs\<close>

text \<open>The manifest that the unit loop builds, as a function of the units alone.\<close>

fun build_manifest :: "(string \<times> (string \<times> json) list) list \<Rightarrow> manifest \<Rightarrow> manifest" where
  "build_manifest [] new = new"
| "build_manifest ((key, machineDef) # rest) new =
     build_manifest rest
       (new\<lparr>machineVersions := set_prop (master_of key) (version_of key) (machineVersions new),
             machine_list := machine_list new @ [master_of key]\<rparr>)"

definition candidate :: "packspec \<Rightarrow> manifest" where
  "candidate spec =
     build_manifest (machines spec)
       \<lparr>deps = dependencies spec, machine_list = [], machineVersions = []\<rparr>"

text \<open>A name that \<^verbatim>\<open>path.join\<close> appends as it is and that names an entry of a directory:
  it has no \<^verbatim>\<open>/\<close> and no NUL in it; a pack name, which is joined alone, is moreover not
  empty and not \<^verbatim>\<open>.\<close> or \<^verbatim>\<open>..\<close>.\<close>

definition plain :: "string \<Rightarrow> bool" where
  "plain n = (CHR ''/'' \<notin> set n \<and> CHR 0x00 \<notin> set n)"

definition plain_name :: "string \<Rightarrow> bool" where
  "plain_name n = (plain n \<and> n \<noteq> [] \<and> n \<noteq> ''.'' \<and> n \<noteq> ''..'')"

text \<open>A pack whose unit keys have different base names, which are plain and not
  \<^verbatim>\<open>__proto__\<close>, and versions that are not empty; a document whose packs are such and
  have different plain names.\<close>

definition versioned :: "packspec \<Rightarrow> bool" where
  "versioned spec =
     (distinct (map (\<lambda>u. master_of (fst u)) (machines spec)) \<and>
      list_all (\<lambda>u. plain (master_of (fst u)) \<and> master_of (fst u) \<noteq> ''__proto__'') (machines spec) \<and>
      list_all (\<lambda>u. case version_of (fst u) of None \<Rightarrow> False | Some v \<Rightarrow> v \<noteq> []) (machines spec))"

definition well_keyed :: "desired \<Rightarrow> bool" where
  "well_keyed dat =
     (distinct (map fst dat) \<and> list_all (\<lambda>item. plain_name (fst item)) dat \<and>
      list_all (\<lambda>item. versioned (snd item)) dat)"

text \<open>A beautifier that keeps the texts of different JSON values different.\<close>

definition canonical :: "(string \<Rightarrow> string) \<Rightarrow> bool" where
  "canonical beautify = (\<forall>a b. beautify (stringify a) = beautify (stringify b) \<longrightarrow> a = b)"

text \<open>The manifest that the code writes for a pack is read back as the value it was
  written from; so are the manifests of a document.\<close>

definition reads_back :: "(string \<Rightarrow> json option) \<Rightarrow> (string \<Rightarrow> string) \<Rightarrow> packspec \<Rightarrow> bool" where
  "reads_back parse beautify spec =
     (parse (beautify (stringify (manifest_json (candidate spec))))
        = Some (manifest_json (candidate spec)))"

definition all_read_back :: "(string \<Rightarrow> json option) \<Rightarrow> (string \<Rightarrow> string) \<Rightarrow> desired \<Rightarrow> bool" where
  "all_read_back parse beautify dat = list_all (\<lambda>item. reads_back parse beautify (snd item)) dat"

text \<open>A pack is settled on a disk when its directory is there and the manifest that is
  loaded from it is the one its units build.\<close>

definition settled :: "(string \<Rightarrow> json option) \<Rightarrow> path \<Rightarrow> disk \<Rightarrow> string \<times> packspec \<Rightarrow> bool" where
  "settled parse mdir d item =
     (node_at d (mdir @ [fst item]) = Some Dir \<and>
      load_manifest parse (mdir @ [fst item]) d = Inr (manifest_json (candidate (snd item))))"

text \<open>The second disk differs from the first only in files, and only at paths in \<open>P\<close>.\<close>

definition files_changed :: "(path \<Rightarrow> bool) \<Rightarrow> disk \<Rightarrow> disk \<Rightarrow> bool" where
  "files_changed P d d' =
     (\<forall>q. node_at d' q = node_at d q \<or>
          (P q \<and> node_at d q \<noteq> Some Dir \<and> node_at d' q \<noteq> Some Dir))"

text \<open>Every entry of the tree lies in a directory.\<close>

definition wf_disk :: "disk \<Rightarrow> bool" where
  "wf_disk d = (\<forall>q. node_at d q \<noteq> None \<longrightarrow> node_at d (butlast q) = Some Dir)"

text \<open>What reconciling the pack \<open>p\<close> may change: its directory is made, and files come
  and go in the cache root and in the directory of the pack.\<close>

definition pack_changed :: "path \<Rightarrow> string \<Rightarrow> disk \<Rightarrow> disk \<Rightarrow> bool" where
  "pack_changed mdir p d d' =
     (\<forall>q. node_at d' q = node_at d q
        \<or> (q = mdir @ [p] \<and> node_at d q = None \<and> node_at d' q = Some Dir)
        \<or> (((\<exists>y. q = mdir @ [y]) \<or> (\<exists>y. q = mdir @ [p, y]))
            \<and> node_at d q \<noteq> Some Dir \<and> node_at d' q \<noteq> Some Dir))"

definition is_digit :: "char \<Rightarrow> bool" where
  "is_digit c = (48 \<le> (of_char c :: nat) \<and> (of_char c :: nat) \<le> 57)"

text \<open>The first character of a serialised value tells its kind.\<close>

fun starts :: "json \<Rightarrow> char \<Rightarrow> bool" where
  "starts JNull c = (c = CHR ''n'')"
| "starts (JBool b) c = (c = (if b then CHR ''t'' else CHR ''f''))"
| "starts (JNum i) c = (c = CHR ''-'' \<or> is_digit c)"
| "starts (JStr s) c = (c = CHR 0x22)"
| "starts (JArr xs) c = (c = CHR ''['')"
| "starts (JObj kvs) c = (c = CHR ''{'')"

definition delim :: "string \<Rightarrow> bool" where
  "delim r = (r = [] \<or> \<not> is_digit (hd r))"

text \<open>The tasks of the call number \<open>n\<close> that are in the queue, waiting or in flight.\<close>

definition owned :: "nat \<Rightarrow> task queue \<Rightarrow> nat" where
  "owned n q =
     length (filter (\<lambda>t. task_cb t = n) (tasks q)) +
     (case running q of None \<Rightarrow> 0 | Some t \<Rightarrow> if task_cb t = n then 1 else 0)"

text \<open>The tasks in the queue were pushed by the calls of \<open>writePacks\<close> made so far.\<close>

definition known_tasks :: "world \<Rightarrow> bool" where
  "known_tasks w =
     (list_all (\<lambda>t. task_cb t \<le> length (earlier w)) (tasks (queue_of w)) \<and>
      (case running (queue_of w) of None \<Rightarrow> True | Some t \<Rightarrow> task_cb t \<le> length (earlier w)))"

section \<open>Pruning\<close>

lemma map_of_filter_fst:
  "map_of (filter (\<lambda>(q, n). Q q) xs) k = (if Q k then map_of xs k else None)"
  by (induction xs) auto

lemma node_at_rmdir:
  "p \<noteq> [] \<Longrightarrow> node_at (rmdirSyncRecursive p d) q =
     (if node_at d p = Some Dir \<and> take (length p) q = p then None else node_at d q)"
  by (auto simp: rmdirSyncRecursive_def readdirSync_def node_at_def map_of_filter_fst
           split: option.splits node.splits)

lemma node_at_rmdir_sibling:
  "node_at (rmdirSyncRecursive (r @ [x]) d) (r @ [n]) = Some Dir \<longleftrightarrow>
     node_at d (r @ [n]) = Some Dir \<and> n \<noteq> x"
  by (auto simp: node_at_rmdir)

lemma node_at_fold_rmdir:
  "node_at (fold (\<lambda>dir. rmdirSyncRecursive (r @ [dir])) xs d) (r @ [n]) = Some Dir \<longleftrightarrow>
     node_at d (r @ [n]) = Some Dir \<and> n \<notin> set xs"
  by (induction xs arbitrary: d) (auto simp: node_at_rmdir_sibling)

lemma node_at_rmdir_None: "node_at d q = None \<Longrightarrow> node_at (rmdirSyncRecursive p d) q = None"
  by (auto simp: rmdirSyncRecursive_def readdirSync_def node_at_def map_of_filter_fst
           split: option.splits node.splits if_splits)

lemma node_at_fold_rmdir_None:
  "node_at d q = None \<Longrightarrow> node_at (fold (\<lambda>dir. rmdirSyncRecursive (r @ [dir])) xs d) q = None"
  by (induction xs arbitrary: d) (auto simp: node_at_rmdir_None)

lemma node_at_fold_rmdir_below:
  "n \<in> set xs \<Longrightarrow> node_at d (r @ [n]) = Some Dir \<Longrightarrow>
   node_at (fold (\<lambda>dir. rmdirSyncRecursive (r @ [dir])) xs d) (r @ n # q) = None"
proof (induction xs arbitrary: d)
  case Nil then show ?case by simp
next
  case (Cons x xs)
  show ?case
  proof (cases "x = n")
    case True
    have "node_at (rmdirSyncRecursive (r @ [n]) d) (r @ n # q) = None"
      using Cons.prems(2) by (simp add: node_at_rmdir)
    then show ?thesis using True by (simp add: node_at_fold_rmdir_None)
  next
    case False
    with Cons.prems have "n \<in> set xs" by simp
    moreover have "node_at (rmdirSyncRecursive (r @ [x]) d) (r @ [n]) = Some Dir"
      using Cons.prems(2) False by (simp add: node_at_rmdir_sibling)
    ultimately show ?thesis using Cons.IH by simp
  qed
qed

lemma readdir_lists_dirs:
  "readdirSync r d = Inr names \<Longrightarrow> node_at d (r @ [n]) = Some x \<Longrightarrow> n \<in> set names"
  apply (auto simp: readdirSync_def node_at_def split: option.splits node.splits if_splits)
   apply (drule map_of_SomeD, force)+
  done

lemma mkdirs_from_node_at:
  "mkdirs_from done p d = Inr d' \<Longrightarrow> length (done @ p) < length q \<Longrightarrow> node_at d' q = node_at d q"
proof (induction p arbitrary: "done" d)
  case Nil then show ?case by simp
next
  case (Cons x r)
  let ?e = "d\<lparr>tree := tree d @ [(done @ [x], Dir)], writes := writes d @ [Mkdir (done @ [x])]\<rparr>"
  have len: "length ((done @ [x]) @ r) < length q" using Cons.prems(2) by simp
  have ne: "q \<noteq> done @ [x]" using Cons.prems(2) by auto
  have same: "node_at ?e q = node_at d q"
    using ne by (auto simp: node_at_def map_of_append map_add_def split: option.splits)
  show ?case
  proof (cases "node_at d (done @ [x])")
    case None
    with Cons.prems(1) have "mkdirs_from (done @ [x]) r ?e = Inr d'" by simp
    from Cons.IH[OF this len] same show ?thesis by simp
  next
    case (Some n)
    show ?thesis
    proof (cases n)
      case (File c)
      with Some Cons.prems(1) show ?thesis by simp
    next
      case Dir
      with Some Cons.prems(1) have "mkdirs_from (done @ [x]) r d = Inr d'" by simp
      from Cons.IH[OF this len] show ?thesis .
    qed
  qed
qed

lemma mkdirs_from_makes_dir:
  "mkdirs_from done p d = Inr d' \<Longrightarrow> node_at d done = Some Dir \<Longrightarrow> node_at d' (done @ p) = Some Dir"
proof (induction p arbitrary: "done" d)
  case Nil then show ?case by simp
next
  case (Cons x r)
  let ?e = "d\<lparr>tree := tree d @ [(done @ [x], Dir)], writes := writes d @ [Mkdir (done @ [x])]\<rparr>"
  show ?case
  proof (cases "node_at d (done @ [x])")
    case None
    with Cons.prems(1) have 1: "mkdirs_from (done @ [x]) r ?e = Inr d'" by simp
    have "node_at ?e (done @ [x]) = Some Dir"
      using None by (auto simp: node_at_def map_of_append map_add_def split: option.splits)
    from Cons.IH[OF 1 this] show ?thesis by simp
  next
    case (Some n)
    show ?thesis
    proof (cases n)
      case (File c)
      with Some Cons.prems(1) show ?thesis by simp
    next
      case Dir
      with Some Cons.prems(1) have 1: "mkdirs_from (done @ [x]) r d = Inr d'" by simp
      from Cons.IH[OF 1] Some Dir show ?thesis by simp
    qed
  qed
qed

lemma prune_pack_dirs:
  assumes "prune opts dat d = Inr d'"
  shows "pack_dirs opts d' = pack_dirs opts d \<inter> set (map fst dat)"
proof -
  define d1 where "d1 = (case mkdirsSync (machinesDir opts) d of Inl e \<Rightarrow> d | Inr d' \<Rightarrow> d')"
  have same: "node_at d1 (machinesDir opts @ [n]) = node_at d (machinesDir opts @ [n])" for n
    unfolding d1_def mkdirsSync_def
    by (auto split: sum.splits intro: mkdirs_from_node_at)
  from assms obtain names where
    rd: "readdirSync (machinesDir opts) d1 = Inr names" and
    d': "d' = fold (\<lambda>dir. rmdirSyncRecursive (machinesDir opts @ [dir]))
                (difference names (map fst dat)) d1"
    by (auto simp: prune_def Let_def d1_def split: sum.splits)
  show ?thesis
    unfolding pack_dirs_def d' node_at_fold_rmdir same[symmetric]
    using readdir_lists_dirs[OF rd]
    by (auto simp: difference_def)
qed

lemma prune_total:
  assumes "mkdirsSync (machinesDir opts) d = Inr d1"
  shows "\<exists>d'. prune opts dat d = Inr d'"
proof -
  have "node_at d1 (machinesDir opts) = Some Dir"
    using mkdirs_from_makes_dir[of "[]" "machinesDir opts" d d1] assms
    by (simp add: mkdirsSync_def node_at_def)
  then show ?thesis
    using assms by (simp add: prune_def readdirSync_def)
qed

lemma prune_empty_removes:
  assumes "prune opts [] d = Inr d'" and "n \<in> pack_dirs opts d"
  shows "node_at d' (machinesDir opts @ n # q) = None"
proof -
  define d1 where "d1 = (case mkdirsSync (machinesDir opts) d of Inl e \<Rightarrow> d | Inr d' \<Rightarrow> d')"
  have same: "node_at d1 (machinesDir opts @ [n]) = node_at d (machinesDir opts @ [n])" for n
    unfolding d1_def mkdirsSync_def
    by (auto split: sum.splits intro: mkdirs_from_node_at)
  from assms(1) obtain names where
    rd: "readdirSync (machinesDir opts) d1 = Inr names" and
    d': "d' = fold (\<lambda>dir. rmdirSyncRecursive (machinesDir opts @ [dir])) names d1"
    by (auto simp: prune_def Let_def d1_def difference_def split: sum.splits)
  have dir: "node_at d1 (machinesDir opts @ [n]) = Some Dir"
    using assms(2) by (simp add: pack_dirs_def same)
  from readdir_lists_dirs[OF rd dir] have "n \<in> set names" .
  from node_at_fold_rmdir_below[OF this dir] show ?thesis by (simp add: d')
qed

text \<open>
  C4. When \<open>cleanPacks\<close> is given a document \<open>D\<close> and completes, the pack subdirectories
  under the cache root are those that were there before and whose name is a key of \<open>D\<close>;
  names are compared as they are.
\<close>

theorem cleanPacks_prunes:
  assumes "cleanPacks (Val opts) (Val D) cb d = Inr (d', r)"
  shows "pack_dirs opts d' = pack_dirs opts d \<inter> set (map fst D)"
  using assms
  by (auto simp: cleanPacks_def cleanPacks_args_def prune_pack_dirs split: sum.splits option.splits)

theorem cleanPacks_prunes_witness:
  "cleanPacks (Val ex_opts) (Val ex_doc_a) (Some 0) ex_root = Inr (ex_root_pruned, 0, None)
   \<and> pack_dirs ex_opts ex_root_pruned = pack_dirs ex_opts ex_root \<inter> set (map fst ex_doc_a)"
proof -
  have h: "cleanPacks (Val ex_opts) (Val ex_doc_a) (Some 0) ex_root = Inr (ex_root_pruned, 0, None)"
    by code_simp
  from cleanPacks_prunes[OF h] h show ?thesis by simp
qed

text \<open>
  C10. When the callback stands in the place of the document, or in the place of the
  options, and the cache root is there or can be made, \<open>cleanPacks\<close> prunes against the
  empty document: no pack subdirectory is left under the cache root, nothing is left
  below the ones that were there, and the callback is called with no error.
\<close>

theorem cleanPacks_callback_shifted:
  assumes "mkdirsSync (machinesDir opts) d = Inr d1"
      and "(a = Val opts \<and> b = Fn f) \<or> (a = Fn f \<and> b = Val D \<and> opts = \<lparr>export = False\<rparr>)"
  shows "\<exists>d'. cleanPacks a b cb d = Inr (d', f, None) \<and> pack_dirs opts d' = {} \<and>
           (\<forall>n \<in> pack_dirs opts d. \<forall>q. node_at d' (machinesDir opts @ n # q) = None)"
proof -
  from prune_total[OF assms(1)] obtain d' where p: "prune opts [] d = Inr d'" by blast
  from prune_pack_dirs[OF p] have e: "pack_dirs opts d' = {}" by simp
  have c: "cleanPacks a b cb d = Inr (d', f, None)"
    using assms(2) p by (auto simp: cleanPacks_def cleanPacks_args_def)
  show ?thesis using c e prune_empty_removes[OF p] by blast
qed

theorem cleanPacks_callback_shifted_witness:
  "mkdirsSync (machinesDir ex_opts) ex_root = Inr ex_root
   \<and> ''a'' \<in> pack_dirs ex_opts ex_root
   \<and> (\<exists>d'. cleanPacks (Val ex_opts) (Fn 7) None ex_root = Inr (d', 7, None)
          \<and> pack_dirs ex_opts d' = {}
          \<and> node_at d' (machinesDir ex_opts @ ''a'' # [''u.js'']) = None)"
proof -
  have h: "mkdirsSync (machinesDir ex_opts) ex_root = Inr ex_root"
    by code_simp
  have m: "''a'' \<in> pack_dirs ex_opts ex_root"
    by (simp add: pack_dirs_def, code_simp)
  from cleanPacks_callback_shifted[OF h, of "Val ex_opts" "Fn 7" 7 "[]" None] m h
  show ?thesis by blast
qed

section \<open>The manifest that is loaded\<close>

lemma missing_child: "node_at d dir = Some Dir \<Longrightarrow> missing d (dir @ [x]) = ENOENT"
proof -
  assume a: "node_at d dir = Some Dir"
  have m: "missing d (dir @ [x]) = missing_up d (rev dir)" by (simp add: missing_def)
  show ?thesis
  proof (cases "rev dir")
    case Nil then show ?thesis using m by simp
  next
    case (Cons y r)
    then have "rev (y # r) = dir" by (metis rev_rev_ident)
    then show ?thesis using m Cons a by simp
  qed
qed

text \<open>
  C7, as amended. When the pack directory is there and holds no \<^verbatim>\<open>package.json\<close>, loading
  the manifest is not an error: the reconciler goes on with the manifest
  \<^verbatim>\<open>{machinepack: {machines: [], machineVersions: {}}}\<close>, which has no \<open>dependencies\<close>
  member.
\<close>

theorem absent_manifest_synthesized:
  assumes "node_at d dir = Some Dir" and "node_at d (dir @ [''package.json'']) = None"
  shows "load_manifest parse dir d = Inr empty_manifest
         \<and> get_prop empty_manifest ''dependencies'' = Inr None
         \<and> machineVersions_of empty_manifest = Inr []
         \<and> get_prop (JObj [(''machines'', JArr []), (''machineVersions'', JObj [])]) ''machines'' = Inr (Some (JArr []))"
proof -
  have "missing d (dir @ [''package.json'']) = ENOENT"
    using assms(1) by (rule missing_child)
  then show ?thesis
    using assms(2)
    by (simp add: load_manifest_def readFileSync_def empty_manifest_def get_prop_def machineVersions_of_def
        own_props_def)
qed

theorem absent_manifest_synthesized_witness:
  "node_at ex_root [''node_machines'', ''a''] = Some Dir
   \<and> node_at ex_root ([''node_machines'', ''a''] @ [''package.json'']) = None
   \<and> load_manifest ex_parse [''node_machines'', ''a''] ex_root = Inr empty_manifest"
proof -
  have a: "node_at ex_root [''node_machines'', ''a''] = Some Dir" by code_simp
  have b: "node_at ex_root ([''node_machines'', ''a''] @ [''package.json'']) = None" by code_simp
  from absent_manifest_synthesized[OF a b] a b show ?thesis by simp
qed

text \<open>
  The claim as stated fails: the manifest that stands in is not the one with an empty
  \<open>dependencies\<close> object, and the difference shows: a pack with no units and the
  dependencies \<^verbatim>\<open>{}\<close>, reconciled into an empty cache, has its manifest written and its
  install pushed.
\<close>

theorem absent_manifest_counterexample:
  "load_manifest ex_parse [''node_machines'', ''a''] ex_root \<noteq>
     Inr (JObj [(''dependencies'', JObj []),
                (''machinepack'', JObj [(''machines'', JArr []), (''machineVersions'', JObj [])])])
   \<and> snd (writePack ex_parse (\<lambda>s. s) [''node_machines''] ''a''
             \<lparr>machines = [], dependencies = Some (JObj [])\<rparr> ex_empty)
       = Returned (Pushed [''node_machines'', ''a''])"
  by code_simp

section \<open>Which unit files are written\<close>

lemma needs_write_iff:
  "needs_write mv master version \<longleftrightarrow>
     \<not> (\<exists>s. s \<noteq> [] \<and> map_of mv master = Some (JStr s) \<and> version = Some s)"
  by (cases "map_of mv master"; cases version)
     (auto simp: needs_write_def strict_neq_def split: option.splits elim: truthy.elims)

lemma write_units_writes:
  "write_units beautify dir mv units new d = (d', Returned new') \<Longrightarrow>
   writes d' = writes d @
     map (\<lambda>u. WriteFile (dir @ [master_of (fst u) @ ''.js'']) (Text (beautify (render (snd u)))))
       (filter (\<lambda>u. needs_write mv (master_of (fst u)) (version_of (fst u))) units)"
proof (induction units arbitrary: new d)
  case Nil then show ?case by simp
next
  case (Cons u units)
  obtain key machineDef where u: "u = (key, machineDef)" by (cases u)
  show ?case
  proof (cases "needs_write mv (master_of key) (version_of key)")
    case True
    with Cons.prems u obtain d1 where
      w: "writeFileSync (dir @ [master_of key @ ''.js'']) (Text (beautify (render machineDef))) d = Inr d1"
      and r: "write_units beautify dir mv units
          (new\<lparr>machineVersions := set_prop (master_of key) (version_of key) (machineVersions new),
                machine_list := machine_list new @ [master_of key]\<rparr>) d1 = (d', Returned new')"
      by (auto simp: Let_def split: sum.splits)
    from w have "writes d1 = writes d @ [WriteFile (dir @ [master_of key @ ''.js'']) (Text (beautify (render machineDef)))]"
      by (auto simp: writeFileSync_def split: option.splits node.splits if_splits)
    with Cons.IH[OF r] True u show ?thesis by simp
  next
    case False
    with Cons.prems u have
      r: "write_units beautify dir mv units
          (new\<lparr>machineVersions := set_prop (master_of key) (version_of key) (machineVersions new),
                machine_list := machine_list new @ [master_of key]\<rparr>) d = (d', Returned new')"
      by (auto simp: Let_def)
    with Cons.IH[OF r] False u show ?thesis by simp
  qed
qed

text \<open>
  C5, as amended. The loop over the units writes the file of a unit exactly when the
  loaded manifest does not record, under the unit's base name, a non-empty string equal
  to the version in the key: when nothing is recorded, when what is recorded is an empty
  string (or another value that \<^verbatim>\<open>!\<close> takes for absent), or when it differs from the
  version. The definition of the unit plays no part: with the version unchanged and not
  empty, a changed body is not written.
\<close>

theorem unit_written_iff:
  assumes "write_units beautify dir mv units new d = (d', Returned new')"
  shows "writes d' = writes d @
     map (\<lambda>u. WriteFile (dir @ [master_of (fst u) @ ''.js'']) (Text (beautify (render (snd u)))))
       (filter (\<lambda>u. \<not> (\<exists>s. s \<noteq> [] \<and> map_of mv (master_of (fst u)) = Some (JStr s)
                            \<and> version_of (fst u) = Some s)) units)"
  using write_units_writes[OF assms] by (simp add: needs_write_iff)

theorem unit_written_iff_witness:
  "write_units (\<lambda>s. s) [''node_machines'', ''a''] [(''u'', JStr ''1'')]
      [(''u:1'', [(''fn'', JStr ''f'')]), (''v:1'', [(''fn'', JStr ''g'')])]
      \<lparr>deps = None, machine_list = [], machineVersions = []\<rparr> ex_root
    = (ex_root\<lparr>tree := tree ex_root @ [([''node_machines'', ''a'', ''v.js''], File (Text (render [(''fn'', JStr ''g'')])))],
               writes := [WriteFile [''node_machines'', ''a'', ''v.js''] (Text (render [(''fn'', JStr ''g'')]))]\<rparr>,
       Returned \<lparr>deps = None, machine_list = [''u'', ''v''],
                 machineVersions = [(''u'', Some ''1''), (''v'', Some ''1'')]\<rparr>)
   \<and> writes (ex_root\<lparr>tree := tree ex_root @ [([''node_machines'', ''a'', ''v.js''], File (Text (render [(''fn'', JStr ''g'')])))],
               writes := [WriteFile [''node_machines'', ''a'', ''v.js''] (Text (render [(''fn'', JStr ''g'')]))]\<rparr>)
      = writes ex_root @ [WriteFile [''node_machines'', ''a'', ''v.js''] (Text (render [(''fn'', JStr ''g'')]))]"
proof -
  have h: "write_units (\<lambda>s. s) [''node_machines'', ''a''] [(''u'', JStr ''1'')]
      [(''u:1'', [(''fn'', JStr ''f'')]), (''v:1'', [(''fn'', JStr ''g'')])]
      \<lparr>deps = None, machine_list = [], machineVersions = []\<rparr> ex_root
    = (ex_root\<lparr>tree := tree ex_root @ [([''node_machines'', ''a'', ''v.js''], File (Text (render [(''fn'', JStr ''g'')])))],
               writes := [WriteFile [''node_machines'', ''a'', ''v.js''] (Text (render [(''fn'', JStr ''g'')]))]\<rparr>,
       Returned \<lparr>deps = None, machine_list = [''u'', ''v''],
                 machineVersions = [(''u'', Some ''1''), (''v'', Some ''1'')]\<rparr>)"
    by code_simp
  from unit_written_iff[OF h] h show ?thesis by (simp add: ex_root_def)
qed

text \<open>
  The claim as stated fails where the recorded version and the version of the key are
  both the empty string: a version is recorded, it equals the one wanted, and the file is
  written all the same.
\<close>

theorem unit_written_counterexample:
  "map_of [(''u'', JStr [])] (master_of ''u:'') = Some (JStr [])
   \<and> version_of ''u:'' = Some []
   \<and> writes (fst (write_units (\<lambda>s. s) [''node_machines'', ''a''] [(''u'', JStr [])]
        [(''u:'', [(''fn'', JStr ''f'')])] \<lparr>deps = None, machine_list = [], machineVersions = []\<rparr> ex_root))
      = [WriteFile [''node_machines'', ''a'', ''u.js''] (Text (render [(''fn'', JStr ''f'')]))]"
  by code_simp

section \<open>The comparison of the manifests\<close>




section \<open>The loop over the packs and the queue\<close>

lemma each_loop_append:
  "each_loop parse beautify opts (xs @ ys) w =
     (case each_loop parse beautify opts xs w of
        (w', Thrown e) \<Rightarrow> (w', Thrown e)
      | (w', Returned u) \<Rightarrow> each_loop parse beautify opts ys w')"
  by (induction xs arbitrary: w) (auto split: prod.splits outcome.splits)

lemma iterator_cases:
  assumes "iterator parse beautify opts item w = (w', r)"
  shows "(\<exists>e. r = Thrown e \<and> each_of w' = each_of w \<and> queue_of w' = queue_of w)
       \<or> (r = Returned () \<and> each_of w' = each_done None (each_of w) \<and> queue_of w' = queue_of w)
       \<or> (r = Returned () \<and> each_of w' = each_of w
            \<and> queue_of w' = push \<lparr>task_cwd = machinesDir opts @ [fst item],
                                   task_cb = length (earlier w)\<rparr> (queue_of w))"
proof -
  obtain d o' where wp: "writePack parse beautify (machinesDir opts) (fst item) (snd item) (disk_of w) = (d, o')"
    by (cases "writePack parse beautify (machinesDir opts) (fst item) (snd item) (disk_of w)")
  have pushed: "o' = Returned (Pushed cwd) \<Longrightarrow> cwd = machinesDir opts @ [fst item]" for cwd
    using wp
    by (auto simp: writePack_def manifest_phase_def split: prod.splits outcome.splits sum.splits if_splits)
  show ?thesis
  proof (cases o')
    case (Thrown e)
    with wp assms show ?thesis by (auto simp: iterator_def)
  next
    case (Returned en)
    show ?thesis
    proof (cases en)
      case Unchanged
      with Returned wp assms show ?thesis by (auto simp: iterator_def)
    next
      case (Pushed cwd)
      with Returned wp assms pushed[of cwd] show ?thesis by (auto simp: iterator_def)
    qed
  qed
qed

lemma iterator_earlier:
  "iterator parse beautify opts item w = (w', r) \<Longrightarrow> earlier w' = earlier w"
  by (auto simp: iterator_def split: prod.splits outcome.splits ending.splits)


lemma owned_push: "owned n (push t q) = owned n q + (if task_cb t = n then 1 else 0)"
  by (simp add: owned_def push_def)

lemma owned_process: "owned n (process q) = owned n q"
  by (auto simp: owned_def process_def split: option.splits list.splits)

lemma owned_finish:
  "running q = Some t \<Longrightarrow> owned n (finish q) + (if task_cb t = n then 1 else 0) = owned n q"
  by (simp add: finish_def Let_def owned_process) (simp add: owned_def)

lemma known_tasks_owned:
  assumes "known_tasks w" and "length (earlier w) < n"
  shows "owned n (queue_of w) = 0"
proof -
  from assms have a: "\<forall>t \<in> set (tasks (queue_of w)). task_cb t \<noteq> n"
    by (auto simp: known_tasks_def list_all_iff)
  from assms have b: "\<And>t. running (queue_of w) = Some t \<Longrightarrow> task_cb t \<noteq> n"
    by (auto simp: known_tasks_def)
  from a have "filter (\<lambda>t. task_cb t = n) (tasks (queue_of w)) = []"
    by (simp add: filter_empty_conv)
  with b show ?thesis by (cases "running (queue_of w)") (simp_all add: owned_def)
qed

text \<open>While items remain beyond the ones of the loop, the completion callback stays
  uncalled, and fewer items are completed or waiting for their install than there are
  items.\<close>

lemma each_loop_pending:
  assumes "each_loop parse beautify opts items w = (w', r)"
      and "\<not> fired (each_of w)" and "calls (each_of w) = []"
      and "completed (each_of w) + owned (length (earlier w)) (queue_of w) + length items
             < total (each_of w)"
  shows "\<not> fired (each_of w') \<and> calls (each_of w') = []
       \<and> completed (each_of w') + owned (length (earlier w')) (queue_of w') < total (each_of w')"
  using assms
proof (induction items arbitrary: w)
  case Nil then show ?case by simp
next
  case (Cons item items)
  obtain w1 r1 where it: "iterator parse beautify opts item w = (w1, r1)"
    by (cases "iterator parse beautify opts item w")
  note e1 = iterator_earlier[OF it]
  from iterator_cases[OF it] Cons.prems(2,3,4) e1
  have inv: "\<not> fired (each_of w1) \<and> calls (each_of w1) = []
             \<and> completed (each_of w1) + owned (length (earlier w1)) (queue_of w1) + length items
                 < total (each_of w1)"
    by (auto simp: each_done_def Let_def owned_push)
  show ?case
  proof (cases r1)
    case (Thrown e)
    with it Cons.prems(1) have "w' = w1" by simp
    with inv show ?thesis by simp
  next
    case (Returned u)
    with it Cons.prems(1) have "each_loop parse beautify opts items w1 = (w', r)" by simp
    from Cons.IH[OF this] inv show ?thesis by simp
  qed
qed



text \<open>When fewer items are completed or waiting for their install than there are
  items, whatever happens later the completion callback is not called without an error:
  it stays uncalled, or it was called once, with the error of an install.\<close>

lemma step_short:
  assumes "completed (each_of w) + owned (length (earlier w)) (queue_of w) < total (each_of w)"
      and "fired (each_of w) = (calls (each_of w) \<noteq> [])"
      and "calls (each_of w) = [] \<or> (\<exists>e. P e \<and> calls (each_of w) = [Some e])"
      and "\<And>e. ev = Exit (Some e) \<Longrightarrow> P e"
  shows "completed (each_of (step ev w)) + owned (length (earlier (step ev w))) (queue_of (step ev w))
           < total (each_of (step ev w))
       \<and> fired (each_of (step ev w)) = (calls (each_of (step ev w)) \<noteq> [])
       \<and> (calls (each_of (step ev w)) = [] \<or> (\<exists>e. P e \<and> calls (each_of (step ev w)) = [Some e]))"
proof (cases ev)
  case Tick
  with assms(1,2,3) show ?thesis by (simp add: step_def owned_process)
next
  case (Exit err)
  show ?thesis
  proof (cases "running (queue_of w)")
    case None
    with Exit assms(1,2,3) show ?thesis by (simp add: step_def)
  next
    case (Some t)
    let ?n = "length (earlier w)"
    note fin = owned_finish[OF Some, of ?n]
    have st: "step ev w = (deliver (task_cb t) err w)\<lparr>queue_of := finish (queue_of w)\<rparr>"
      using Exit Some by (simp add: step_def)
    show ?thesis
    proof (cases "task_cb t = ?n")
      case False
      then have "each_of (step ev w) = each_of w" "length (earlier (step ev w)) = ?n"
        "queue_of (step ev w) = finish (queue_of w)"
        unfolding st by (simp_all add: deliver_def)
      with fin False assms(1,2,3) show ?thesis by simp
    next
      case True
      then have s: "each_of (step ev w) = each_done err (each_of w)" "length (earlier (step ev w)) = ?n"
        "queue_of (step ev w) = finish (queue_of w)"
        unfolding st by (simp_all add: deliver_def)
      from fin True have o: "owned ?n (finish (queue_of w)) + 1 = owned ?n (queue_of w)" by simp
      show ?thesis
      proof (cases err)
        case None
        from assms(1) o have lt: "completed (each_of w) + 1 < total (each_of w)" by arith
        then have "each_done err (each_of w) = (each_of w)\<lparr>completed := completed (each_of w) + 1\<rparr>"
          using None by (simp add: each_done_def Let_def)
        with s o assms(1,2,3) show ?thesis by simp
      next
        case (Some e)
        with Exit assms(4) have p: "P e" by simp
        show ?thesis
        proof (cases "fired (each_of w)")
          case True
          then have "each_done err (each_of w) = each_of w" using Some by (simp add: each_done_def)
          with s o assms(1,2,3) show ?thesis by simp
        next
          case False
          with assms(2) have c: "calls (each_of w) = []" by simp
          from False have "each_done err (each_of w) = (each_of w)\<lparr>fired := True, calls := calls (each_of w) @ [Some e]\<rparr>"
            using Some by (simp add: each_done_def)
          with s o assms(1) c p show ?thesis by simp
        qed
      qed
    qed
  qed
qed

lemma run_short:
  assumes "completed (each_of w) + owned (length (earlier w)) (queue_of w) < total (each_of w)"
      and "fired (each_of w) = (calls (each_of w) \<noteq> [])"
      and "calls (each_of w) = [] \<or> (\<exists>e. P e \<and> calls (each_of w) = [Some e])"
      and "\<And>e. Exit (Some e) \<in> set evs \<Longrightarrow> P e"
  shows "calls (each_of (run evs w)) = [] \<or> (\<exists>e. P e \<and> calls (each_of (run evs w)) = [Some e])"
  using assms
proof (induction evs arbitrary: w)
  case Nil then show ?case by (simp add: run_def)
next
  case (Cons ev evs)
  have p: "\<And>e. ev = Exit (Some e) \<Longrightarrow> P e" using Cons.prems(4) by simp
  from step_short[OF Cons.prems(1,2,3) p]
  have a: "completed (each_of (step ev w)) + owned (length (earlier (step ev w))) (queue_of (step ev w))
           < total (each_of (step ev w))"
    and b: "fired (each_of (step ev w)) = (calls (each_of (step ev w)) \<noteq> [])"
    and c: "calls (each_of (step ev w)) = [] \<or> (\<exists>e. P e \<and> calls (each_of (step ev w)) = [Some e])"
    by simp_all
  have "calls (each_of (run evs (step ev w))) = []
        \<or> (\<exists>e. P e \<and> calls (each_of (run evs (step ev w))) = [Some e])"
    using a b c
  proof (rule Cons.IH)
    fix e assume "Exit (Some e) \<in> set evs"
    then show "P e" using Cons.prems(4) by simp
  qed
  then show ?case by (simp add: run_def)
qed

section \<open>A manifest that does not parse\<close>

text \<open>
  C8, as amended. When the packs before it have been reconciled and the manifest of a
  pack is there but does not parse, \<open>writePacks\<close> throws the \<open>SyntaxError\<close> to its caller
  from inside the loop: the state is the one the earlier packs left, whatever packs
  follow in the document, and the completion callback has not been called. Whatever
  happens later, it is never called without an error: it stays uncalled, or it is called
  once, with the error of an install that exited with one.
\<close>

theorem malformed_manifest_aborts:
  assumes "dat = pre @ (name, spec) # post"
      and "known_tasks w"
      and "each_loop parse beautify opts pre (begin_each (length dat) w) = (w1, Returned ())"
      and "node_at (disk_of w1) (machinesDir opts @ [name]) = Some Dir"
      and "node_at (disk_of w1) (machinesDir opts @ [name, ''package.json'']) = Some (File (Text s))"
      and "parse s = None"
  shows "writePacks parse beautify opts dat w = (w1, Thrown SyntaxError)
       \<and> calls (each_of w1) = []
       \<and> (calls (each_of (run evs w1)) = []
          \<or> (\<exists>e. Exit (Some e) \<in> set evs \<and> calls (each_of (run evs w1)) = [Some e]))"
proof -
  let ?w0 = "begin_each (length dat) w"
  have wp: "writePack parse beautify (machinesDir opts) name spec (disk_of w1) = (disk_of w1, Thrown SyntaxError)"
    using assms(4,5,6)
    by (simp add: writePack_def units_phase_def ensure_dir_def mkdirSync_def load_manifest_def
        readFileSync_def)
  have it: "iterator parse beautify opts (name, spec) w1 = (w1, Thrown SyntaxError)"
    using wp by (simp add: iterator_def)
  have "each_loop parse beautify opts dat ?w0 = (w1, Thrown SyntaxError)"
    using assms(1,3) it by (simp add: each_loop_append)
  moreover have "dat \<noteq> []" using assms(1) by simp
  ultimately have 1: "writePacks parse beautify opts dat w = (w1, Thrown SyntaxError)"
    by (simp add: writePacks_def Let_def)
  have e0: "length (earlier ?w0) = Suc (length (earlier w))" by (simp add: begin_each_def)
  have k0: "known_tasks w" by (rule assms(2))
  have "owned (Suc (length (earlier w))) (queue_of w) = 0"
    using k0 by (rule known_tasks_owned) simp
  then have o0: "owned (length (earlier ?w0)) (queue_of ?w0) = 0"
    by (simp add: begin_each_def)
  have pre: "\<not> fired (each_of ?w0)" "calls (each_of ?w0) = []"
    "completed (each_of ?w0) + owned (length (earlier ?w0)) (queue_of ?w0) + length pre < total (each_of ?w0)"
    unfolding o0 using assms(1) by (simp_all add: begin_each_def)
  from each_loop_pending[OF assms(3) pre]
  have nf: "\<not> fired (each_of w1)" and 2: "calls (each_of w1) = []"
    and lt: "completed (each_of w1) + owned (length (earlier w1)) (queue_of w1) < total (each_of w1)"
    by simp_all
  have f: "fired (each_of w1) = (calls (each_of w1) \<noteq> [])" using nf 2 by simp
  have c: "calls (each_of w1) = [] \<or> (\<exists>e. Exit (Some e) \<in> set evs \<and> calls (each_of w1) = [Some e])"
    using 2 by simp
  have 3: "calls (each_of (run evs w1)) = []
          \<or> (\<exists>e. Exit (Some e) \<in> set evs \<and> calls (each_of (run evs w1)) = [Some e])"
    using lt f c by (rule run_short)
  from 1 2 3 show ?thesis by simp
qed

theorem malformed_manifest_aborts_witness:
  "ex_doc_bac = [(''b'', ex_spec_u)] @ (''a'', ex_spec_u) # [(''c'', ex_spec_u)]
   \<and> known_tasks ex_world_busy
   \<and> each_loop ex_parse (\<lambda>s. s) ex_opts [(''b'', ex_spec_u)] (begin_each (length ex_doc_bac) ex_world_busy)
       = (ex_world_b_done, Returned ())
   \<and> node_at (disk_of ex_world_b_done) (machinesDir ex_opts @ [''a'']) = Some Dir
   \<and> node_at (disk_of ex_world_b_done) (machinesDir ex_opts @ [''a'', ''package.json''])
       = Some (File (Text ''{''))
   \<and> ex_parse ''{'' = None
   \<and> writePacks ex_parse (\<lambda>s. s) ex_opts ex_doc_bac ex_world_busy = (ex_world_b_done, Thrown SyntaxError)
   \<and> calls (each_of ex_world_b_done) = []
   \<and> calls (each_of (run [Tick, Exit None, Exit None] ex_world_b_done)) = []
   \<and> calls (each_of (run [Tick, Exit (Some InstallError)] ex_world_b_done)) = []
   \<and> calls (each_of (run [Tick, Exit None, Exit (Some InstallError)] ex_world_b_done)) = [Some InstallError]"
proof -
  have a: "ex_doc_bac = [(''b'', ex_spec_u)] @ (''a'', ex_spec_u) # [(''c'', ex_spec_u)]"
    by (simp add: ex_doc_bac_def)
  have k: "known_tasks ex_world_busy" by code_simp
  have b: "each_loop ex_parse (\<lambda>s. s) ex_opts [(''b'', ex_spec_u)] (begin_each (length ex_doc_bac) ex_world_busy)
       = (ex_world_b_done, Returned ())" by code_simp
  have c: "node_at (disk_of ex_world_b_done) (machinesDir ex_opts @ [''a'']) = Some Dir" by code_simp
  have d: "node_at (disk_of ex_world_b_done) (machinesDir ex_opts @ [''a'', ''package.json''])
       = Some (File (Text ''{''))" by code_simp
  have p: "ex_parse ''{'' = None" by code_simp
  have n1: "calls (each_of (run [Tick, Exit None, Exit None] ex_world_b_done)) \<noteq> [Some e]" for e
    by code_simp
  have n2: "calls (each_of (run [Tick, Exit (Some InstallError)] ex_world_b_done)) \<noteq> [Some e]" for e
    by code_simp
  have i: "calls (each_of (run [Tick, Exit None, Exit (Some InstallError)] ex_world_b_done)) \<noteq> []"
    by code_simp
  note t = malformed_manifest_aborts[OF a k b c d p]
  from t[of "[Tick, Exit None, Exit None]"] n1
  have 1: "calls (each_of (run [Tick, Exit None, Exit None] ex_world_b_done)) = []" by blast
  from t[of "[Tick, Exit (Some InstallError)]"] n2
  have 2: "calls (each_of (run [Tick, Exit (Some InstallError)] ex_world_b_done)) = []" by blast
  from t[of "[Tick, Exit None, Exit (Some InstallError)]"] i
  have 3: "calls (each_of (run [Tick, Exit None, Exit (Some InstallError)] ex_world_b_done)) = [Some InstallError]"
    by auto
  from t[of "[]"] have 4: "writePacks ex_parse (\<lambda>s. s) ex_opts ex_doc_bac ex_world_busy
      = (ex_world_b_done, Thrown SyntaxError)" "calls (each_of ex_world_b_done) = []" by simp_all
  from a k b c d p 1 2 3 4 show ?thesis by blast
qed

text \<open>
  The claim as stated fails: with the pack \<open>a\<close> unreadable, the pack \<open>b\<close> that follows
  it is not reconciled (its directory is not even made, as it is when \<open>b\<close> is
  reconciled alone), and the callback is not called.
\<close>

theorem malformed_manifest_counterexample:
  "snd (writePacks ex_parse (\<lambda>s. s) ex_opts ex_doc_ab (world0 ex_bad)) = Thrown SyntaxError
   \<and> node_at (disk_of (fst (writePacks ex_parse (\<lambda>s. s) ex_opts ex_doc_ab (world0 ex_bad)))) [''node_machines'', ''b''] = None
   \<and> calls (each_of (fst (writePacks ex_parse (\<lambda>s. s) ex_opts ex_doc_ab (world0 ex_bad)))) = []
   \<and> node_at (disk_of (fst (writePacks ex_parse (\<lambda>s. s) ex_opts [(''b'', ex_spec_u)] (world0 ex_bad)))) [''node_machines'', ''b'']
       = Some Dir"
  by code_simp

section \<open>The maintenance flag\<close>

lemma qstep_flag_inv:
  "maintenance q = (running q \<noteq> None) \<Longrightarrow> maintenance (qstep ev q) = (running (qstep ev q) \<noteq> None)"
  by (cases ev)
     (auto simp: qstep_def push_def process_def finish_def Let_def split: option.splits list.splits)

lemma fold_qstep_flag_inv:
  "maintenance q = (running q \<noteq> None) \<Longrightarrow>
   maintenance (fold qstep evs q) = (running (fold qstep evs q) \<noteq> None)"
  by (induction evs arbitrary: q) (auto simp: qstep_flag_inv)

text \<open>
  C9, as amended. After any run of pushes, \<open>process\<close> calls and exits from the idle
  queue, the flag is up exactly when an install is in flight. A push onto the idle queue
  leaves it down; the \<open>process\<close> call that starts the task raises it. When the install
  in flight exits, the flag stays up if a task is waiting and drops if none is. With three
  pushes before the first \<open>process\<close>, the flag goes from false to true to false once.
  What the tasks are plays no part.
\<close>

theorem maintenance_flag_lifecycle:
  "maintenance (fold qstep evs queue0) = (running (fold qstep evs queue0) \<noteq> None)
   \<and> \<not> maintenance (qstep (Enqueue cwd) queue0)
   \<and> maintenance (qstep Process (qstep (Enqueue cwd) queue0))
   \<and> (running q = Some t \<longrightarrow> maintenance (qstep Exited q) = (tasks q \<noteq> []))
   \<and> flag_trace [Enqueue a, Enqueue b, Enqueue c, Process, Process, Process, Exited, Exited, Exited] queue0
       = [False, False, False, True, True, True, True, True, False]"
proof -
  have 1: "maintenance (fold qstep evs queue0) = (running (fold qstep evs queue0) \<noteq> None)"
    by (rule fold_qstep_flag_inv) (simp add: queue0_def)
  have 2: "\<not> maintenance (qstep (Enqueue cwd) queue0)"
    by (simp add: qstep_def push_def queue0_def)
  have 3: "maintenance (qstep Process (qstep (Enqueue cwd) queue0))"
    by (simp add: qstep_def push_def process_def queue0_def)
  have 4: "running q = Some t \<longrightarrow> maintenance (qstep Exited q) = (tasks q \<noteq> [])"
    by (auto simp: qstep_def finish_def process_def Let_def split: list.splits)
  have 5: "flag_trace [Enqueue a, Enqueue b, Enqueue c, Process, Process, Process, Exited, Exited, Exited] queue0
       = [False, False, False, True, True, True, True, True, False]"
    by (simp add: qstep_def push_def process_def finish_def queue0_def Let_def)
  from 1 2 3 4 5 show ?thesis by blast
qed

theorem maintenance_flag_lifecycle_witness:
  "running (qstep Process (qstep (Enqueue [''a'']) queue0)) = Some [''a'']
   \<and> maintenance (qstep Exited (qstep Process (qstep (Enqueue [''a'']) queue0)))
       = (tasks (qstep Process (qstep (Enqueue [''a'']) queue0)) \<noteq> [])
   \<and> \<not> maintenance (qstep Exited (qstep Process (qstep (Enqueue [''a'']) queue0)))"
proof -
  have r: "running (qstep Process (qstep (Enqueue [''a'']) queue0)) = Some [''a'']"
    by (simp add: qstep_def push_def process_def queue0_def)
  have t: "tasks (qstep Process (qstep (Enqueue [''a'']) queue0)) = []"
    by (simp add: qstep_def push_def process_def queue0_def)
  from maintenance_flag_lifecycle[of "[] :: path qevent list" "[''a'']" "qstep Process (qstep (Enqueue [''a'']) queue0)" "[''a'']" "[''a'']" "[''a'']" "[''a'']"] r t
  show ?thesis by simp
qed

text \<open>
  The claim as stated fails: after the first push a task is pending and the flag is
  still down.
\<close>

theorem maintenance_flag_counterexample:
  "tasks (qstep (Enqueue [''node_machines'', ''a'']) queue0) = [[''node_machines'', ''a'']]
   \<and> running (qstep (Enqueue [''node_machines'', ''a'']) queue0) = None
   \<and> \<not> maintenance (qstep (Enqueue [''node_machines'', ''a'']) queue0)"
  by (simp add: qstep_def push_def queue0_def)

section \<open>The exit of an install and the completion callback\<close>







section \<open>Units that left the pack\<close>

text \<open>
  C3 fails on the code. The file of a unit that left the pack is unlinked at
  \<^verbatim>\<open>path.join(machinesDir, master + '.js')\<close>, in the cache root, while the unit files are
  written into the directory of the pack. With a file \<^verbatim>\<open>v.js\<close> in the cache root the
  reconciliation of the pack \<open>a\<close> succeeds, removes that file and leaves \<^verbatim>\<open>a/v.js\<close>;
  without it the reconciliation throws \<open>ENOENT\<close> and changes nothing.
\<close>

theorem stale_unit_left_behind:
  "snd (writePack ex_parse (\<lambda>s. s) [''node_machines''] ''a'' ex_spec_u ex_stale) = Returned (Pushed [''node_machines'', ''a''])
   \<and> node_at (fst (writePack ex_parse (\<lambda>s. s) [''node_machines''] ''a'' ex_spec_u ex_stale)) [''node_machines'', ''a'', ''v.js'']
       = Some (File (Text ''y''))
   \<and> node_at (fst (writePack ex_parse (\<lambda>s. s) [''node_machines''] ''a'' ex_spec_u ex_stale)) [''node_machines'', ''v.js''] = None
   \<and> writePack ex_parse (\<lambda>s. s) [''node_machines''] ''a'' ex_spec_u ex_stale2 = (ex_stale2, Thrown ENOENT)"
  by code_simp

section \<open>The serialisation is injective\<close>

lemma digit_is_digit: "n < 10 \<Longrightarrow> is_digit (digit n)"
  by (simp add: is_digit_def digit_def)

lemma digit_inj: "n < 10 \<Longrightarrow> m < 10 \<Longrightarrow> digit n = digit m \<Longrightarrow> n = m"
proof -
  assume a: "n < 10" "m < 10" "digit n = digit m"
  then have "(of_char (digit n) :: nat) = of_char (digit m)" by simp
  with a show ?thesis by (simp add: digit_def)
qed

lemma show_nat_digits: "\<forall>c \<in> set (show_nat n). is_digit c"
proof (induction n rule: show_nat.induct)
  case (1 n)
  show ?case
  proof (cases "n < 10")
    case True
    then show ?thesis by (subst show_nat.simps) (simp add: digit_is_digit)
  next
    case False
    with 1 show ?thesis by (subst show_nat.simps) (auto simp: digit_is_digit)
  qed
qed

lemma show_nat_nonempty: "show_nat n \<noteq> []"
  by (subst show_nat.simps) simp

lemma show_nat_snoc: "\<not> n < 10 \<Longrightarrow> show_nat n = show_nat (n div 10) @ [digit (n mod 10)]"
  by (subst show_nat.simps) simp

lemma show_nat_small: "n < 10 \<Longrightarrow> show_nat n = [digit n]"
  by (subst show_nat.simps) simp

lemma show_nat_inj: "show_nat n = show_nat m \<Longrightarrow> n = m"
proof (induction n arbitrary: m rule: show_nat.induct)
  case (1 n)
  show ?case
  proof (cases "n < 10")
    case True
    show ?thesis
    proof (cases "m < 10")
      case mt: True
      with True 1(2) show ?thesis by (simp add: show_nat_small digit_inj)
    next
      case False
      with True 1(2) show_nat_nonempty[of "m div 10"] show ?thesis
        by (simp add: show_nat_small show_nat_snoc)
    qed
  next
    case nf: False
    show ?thesis
    proof (cases "m < 10")
      case True
      with nf 1(2) show_nat_nonempty[of "n div 10"] show ?thesis
        by (simp add: show_nat_small show_nat_snoc)
    next
      case False
      with nf 1(2) have e: "show_nat (n div 10) = show_nat (m div 10)" "digit (n mod 10) = digit (m mod 10)"
        by (simp_all add: show_nat_snoc)
      from 1(1)[OF nf e(1)] have "n div 10 = m div 10" .
      moreover from e(2) have "n mod 10 = m mod 10" by (intro digit_inj) simp_all
      ultimately show ?thesis by (metis div_mult_mod_eq)
    qed
  qed
qed

text \<open>A run of digits followed by something that is no digit is read back in one way.\<close>

lemma digits_split:
  assumes "xs @ r = ys @ s" and "\<forall>c \<in> set xs. P c" and "\<forall>c \<in> set ys. P c"
      and "r = [] \<or> \<not> P (hd r)" and "s = [] \<or> \<not> P (hd s)"
  shows "xs = ys \<and> r = s"
  using assms
proof (induction xs arbitrary: ys)
  case Nil
  then show ?case by (cases ys) auto
next
  case (Cons x xs)
  show ?case
  proof (cases ys)
    case Nil
    with Cons.prems show ?thesis by auto
  next
    case (Cons y ys')
    with Cons.prems Cons.IH[of ys'] show ?thesis by auto
  qed
qed

lemma hexdigit_inj: "a < 16 \<Longrightarrow> b < 16 \<Longrightarrow> hexdigit a = hexdigit b \<Longrightarrow> a = b"
proof -
  assume a: "a < 16" "b < 16" "hexdigit a = hexdigit b"
  then have "(of_char (hexdigit a) :: nat) = of_char (hexdigit b)" by simp
  with a show ?thesis by (simp add: hexdigit_def split: if_splits)
qed

lemma esc_cases:
  "esc c = [c] \<and> c \<noteq> CHR 0x22 \<and> c \<noteq> CHR 0x5C
   \<or> (\<exists>x. esc c = [CHR 0x5C, x] \<and> x \<noteq> CHR ''u'')
   \<or> ((of_char c :: nat) < 32 \<and>
        esc c = [CHR 0x5C, CHR ''u'', CHR ''0'', CHR ''0'',
                 hexdigit (of_char c div 16), hexdigit (of_char c mod 16)])"
  by (auto simp: esc_def)

lemma esc_short_inj:
  "esc c = [CHR 0x5C, x] \<Longrightarrow> esc c' = [CHR 0x5C, x] \<Longrightarrow> c = c'"
  by (auto simp: esc_def split: if_splits)

lemma esc_code:
  assumes "esc c @ X = esc c' @ Y"
  shows "c = c' \<and> X = Y"
proof -
  consider
      (p) "esc c = [c]" "c \<noteq> CHR 0x22" "c \<noteq> CHR 0x5C"
    | (s) x where "esc c = [CHR 0x5C, x]" "x \<noteq> CHR ''u''"
    | (u) "(of_char c :: nat) < 32" "esc c = [CHR 0x5C, CHR ''u'', CHR ''0'', CHR ''0'',
                 hexdigit (of_char c div 16), hexdigit (of_char c mod 16)]"
    using esc_cases[of c] by blast
  then show ?thesis
  proof cases
    case p
    consider
      (p') "esc c' = [c']" "c' \<noteq> CHR 0x22" "c' \<noteq> CHR 0x5C"
    | (s') x where "esc c' = [CHR 0x5C, x]" "x \<noteq> CHR ''u''"
    | (u') "(of_char c' :: nat) < 32" "esc c' = [CHR 0x5C, CHR ''u'', CHR ''0'', CHR ''0'',
                 hexdigit (of_char c' div 16), hexdigit (of_char c' mod 16)]"
      using esc_cases[of c'] by blast
    then show ?thesis using p assms by cases auto
  next
    case s
    consider
      (p') "esc c' = [c']" "c' \<noteq> CHR 0x22" "c' \<noteq> CHR 0x5C"
    | (s') y where "esc c' = [CHR 0x5C, y]" "y \<noteq> CHR ''u''"
    | (u') "(of_char c' :: nat) < 32" "esc c' = [CHR 0x5C, CHR ''u'', CHR ''0'', CHR ''0'',
                 hexdigit (of_char c' div 16), hexdigit (of_char c' mod 16)]"
      using esc_cases[of c'] by blast
    then show ?thesis
    proof cases
      case p' with s assms show ?thesis by auto
    next
      case s'
      with s assms have "x = y" "X = Y" by auto
      with s s' esc_short_inj[of c x c'] show ?thesis by simp
    next
      case u' with s assms show ?thesis by auto
    qed
  next
    case u
    consider
      (p') "esc c' = [c']" "c' \<noteq> CHR 0x22" "c' \<noteq> CHR 0x5C"
    | (s') y where "esc c' = [CHR 0x5C, y]" "y \<noteq> CHR ''u''"
    | (u') "(of_char c' :: nat) < 32" "esc c' = [CHR 0x5C, CHR ''u'', CHR ''0'', CHR ''0'',
                 hexdigit (of_char c' div 16), hexdigit (of_char c' mod 16)]"
      using esc_cases[of c'] by blast
    then show ?thesis
    proof cases
      case p' with u assms show ?thesis by auto
    next
      case s' with u assms show ?thesis by auto
    next
      case u'
      with u assms have h: "hexdigit (of_char c div 16) = hexdigit (of_char c' div 16)"
        "hexdigit (of_char c mod 16) = hexdigit (of_char c' mod 16)" and xy: "X = Y" by auto
      have "(of_char c :: nat) div 16 = of_char c' div 16"
        using h(1) u(1) u'(1) by (intro hexdigit_inj) auto
      moreover have "(of_char c :: nat) mod 16 = of_char c' mod 16"
        using h(2) by (intro hexdigit_inj) auto
      ultimately have "(of_char c :: nat) = of_char c'" by (metis div_mult_mod_eq)
      then show ?thesis using xy by simp
    qed
  qed
qed

lemma esc_head: "esc c \<noteq> [] \<and> hd (esc c) \<noteq> CHR 0x22"
  using esc_cases[of c] by auto

lemma esc_body_unique:
  "concat (map esc s) @ CHR 0x22 # r = concat (map esc t) @ CHR 0x22 # r' \<Longrightarrow> s = t \<and> r = r'"
proof (induction s arbitrary: t)
  case Nil
  show ?case
  proof (cases t)
    case Nil with Nil.prems show ?thesis by simp
  next
    case (Cons c t')
    from esc_head[of c] obtain x xs where "esc c = x # xs" "x \<noteq> CHR 0x22" by (cases "esc c") auto
    with Cons Nil.prems show ?thesis by simp
  qed
next
  case (Cons c s)
  show ?case
  proof (cases t)
    case Nil
    from esc_head[of c] obtain x xs where "esc c = x # xs" "x \<noteq> CHR 0x22" by (cases "esc c") auto
    with Nil Cons.prems show ?thesis by simp
  next
    case (Cons c' t')
    with Cons.prems have "esc c @ (concat (map esc s) @ CHR 0x22 # r) = esc c' @ (concat (map esc t') @ CHR 0x22 # r')"
      by simp
    from esc_code[OF this] Cons.IH[of t'] Cons show ?thesis by simp
  qed
qed

lemma quote_unique: "quote s @ r = quote t @ r' \<Longrightarrow> s = t \<and> r = r'"
  using esc_body_unique[of s r t r'] by (simp add: quote_def)

lemma join_cons: "join sep (x # xs) = x @ concat (map (\<lambda>y. sep @ y) xs)"
  by (induction xs arbitrary: x) auto

lemma tails_unique:
  fixes f :: "'a \<Rightarrow> string" and cl :: char
  assumes el: "\<And>x y t t'. x \<in> set xs \<Longrightarrow> f x @ t = f y @ t' \<Longrightarrow> t \<noteq> [] \<Longrightarrow> t' \<noteq> [] \<Longrightarrow>
                 hd t \<in> {CHR '','', cl} \<Longrightarrow> hd t' \<in> {CHR '','', cl} \<Longrightarrow> x = y \<and> t = t'"
      and ne: "cl \<noteq> CHR '',''"
      and eq: "concat (map (\<lambda>z. '','' @ f z) xs) @ cl # r = concat (map (\<lambda>z. '','' @ f z) ys) @ cl # s"
  shows "xs = ys \<and> r = s"
  using el eq
proof (induction xs arbitrary: ys)
  case Nil
  then show ?case using ne by (cases ys) auto
next
  case (Cons a xs)
  show ?case
  proof (cases ys)
    case Nil
    with Cons.prems(2) ne show ?thesis by auto
  next
    case (Cons b ys')
    let ?T = "concat (map (\<lambda>z. '','' @ f z) xs) @ cl # r"
    let ?T' = "concat (map (\<lambda>z. '','' @ f z) ys') @ cl # s"
    from Cons Cons.prems(2) have e: "f a @ ?T = f b @ ?T'" by simp
    have h1: "?T \<noteq> []" and h2: "?T' \<noteq> []" by simp_all
    have h3: "hd ?T \<in> {CHR '','', cl}" by (cases xs) simp_all
    have h4: "hd ?T' \<in> {CHR '','', cl}" by (cases ys') simp_all
    have "a \<in> set (a # xs)" by simp
    from Cons.prems(1)[OF this e h1 h2 h3 h4] have ab: "a = b" and T: "?T = ?T'" by simp_all
    have el': "x = y \<and> t = t'"
      if "x \<in> set xs" "f x @ t = f y @ t'" "t \<noteq> []" "t' \<noteq> []"
         "hd t \<in> {CHR '','', cl}" "hd t' \<in> {CHR '','', cl}" for x y t t'
      using Cons.prems(1)[of x t y t'] that by simp
    from Cons.IH[OF el' T] have "xs = ys' \<and> r = s" by simp
    with ab Cons show ?thesis by simp
  qed
qed

lemma join_unique:
  fixes f :: "'a \<Rightarrow> string" and cl :: char
  assumes el: "\<And>x y t t'. x \<in> set xs \<Longrightarrow> f x @ t = f y @ t' \<Longrightarrow> t \<noteq> [] \<Longrightarrow> t' \<noteq> [] \<Longrightarrow>
                 hd t \<in> {CHR '','', cl} \<Longrightarrow> hd t' \<in> {CHR '','', cl} \<Longrightarrow> x = y \<and> t = t'"
      and hd: "\<And>y. f y \<noteq> [] \<and> hd (f y) \<noteq> cl"
      and ne: "cl \<noteq> CHR '',''"
      and eq: "join '','' (map f xs) @ cl # r = join '','' (map f ys) @ cl # s"
  shows "xs = ys \<and> r = s"
proof (cases xs)
  case Nil
  show ?thesis
  proof (cases ys)
    case Nil with \<open>xs = []\<close> eq show ?thesis by simp
  next
    case (Cons b ys')
    from hd[of b] obtain c cs where "f b = c # cs" "c \<noteq> cl" by (cases "f b") auto
    with Cons \<open>xs = []\<close> eq show ?thesis by (simp add: join_cons)
  qed
next
  case (Cons a xs')
  show ?thesis
  proof (cases ys)
    case Nil
    from hd[of a] obtain c cs where "f a = c # cs" "c \<noteq> cl" by (cases "f a") auto
    with Nil Cons eq show ?thesis by (simp add: join_cons)
  next
    case (Cons b ys')
    let ?T = "concat (map (\<lambda>z. '','' @ f z) xs') @ cl # r"
    let ?T' = "concat (map (\<lambda>z. '','' @ f z) ys') @ cl # s"
    from eq \<open>xs = a # xs'\<close> Cons have e: "f a @ ?T = f b @ ?T'"
      by (simp add: join_cons comp_def)
    have h1: "?T \<noteq> []" and h2: "?T' \<noteq> []" by simp_all
    have h3: "hd ?T \<in> {CHR '','', cl}" by (cases xs') simp_all
    have h4: "hd ?T' \<in> {CHR '','', cl}" by (cases ys') simp_all
    have "a \<in> set xs" using \<open>xs = a # xs'\<close> by simp
    from el[OF this e h1 h2 h3 h4] have ab: "a = b" and T: "?T = ?T'" by simp_all
    have el': "x = y \<and> t = t'"
      if "x \<in> set xs'" "f x @ t = f y @ t'" "t \<noteq> []" "t' \<noteq> []"
         "hd t \<in> {CHR '','', cl}" "hd t' \<in> {CHR '','', cl}" for x y t t'
      using el[of x t y t'] that \<open>xs = a # xs'\<close> by simp
    from tails_unique[of xs' f cl r ys' s, OF el' ne T] have "xs' = ys' \<and> r = s" by simp
    with ab Cons \<open>xs = a # xs'\<close> show ?thesis by simp
  qed
qed

lemma show_int_head:
  "\<exists>c cs. show_int i = c # cs \<and> (c = CHR ''-'' \<or> is_digit c)"
proof (cases "i < 0")
  case True then show ?thesis by (simp add: show_int_def)
next
  case False
  obtain c cs where "show_nat (nat i) = c # cs" using show_nat_nonempty[of "nat i"] by (cases "show_nat (nat i)") auto
  with show_nat_digits[of "nat i"] False show ?thesis by (auto simp: show_int_def)
qed

lemma show_int_unique:
  assumes "show_int i @ r = show_int j @ s"
      and "r = [] \<or> \<not> is_digit (hd r)" and "s = [] \<or> \<not> is_digit (hd s)"
  shows "i = j \<and> r = s"
proof -
  have nd: "\<not> is_digit (CHR ''-'')" by (simp add: is_digit_def)
  have hdd: "\<exists>c cs. show_nat n = c # cs \<and> is_digit c" for n
    using show_nat_nonempty[of n] show_nat_digits[of n] by (cases "show_nat n") auto
  show ?thesis
  proof (cases "i < 0")
    case True
    show ?thesis
    proof (cases "j < 0")
      case jn: True
      with True assms(1) have "show_nat (nat (- i)) @ r = show_nat (nat (- j)) @ s"
        by (simp add: show_int_def)
      from digits_split[OF this show_nat_digits show_nat_digits assms(2,3)]
      have "show_nat (nat (- i)) = show_nat (nat (- j))" and rs: "r = s" by simp_all
      from show_nat_inj[OF this(1)] True jn have "i = j" by simp
      with rs show ?thesis by simp
    next
      case False
      from hdd[of "nat j"] obtain c cs where "show_nat (nat j) = c # cs" "is_digit c" by blast
      with True False assms(1) nd show ?thesis by (auto simp: show_int_def)
    qed
  next
    case False
    show ?thesis
    proof (cases "j < 0")
      case True
      from hdd[of "nat i"] obtain c cs where "show_nat (nat i) = c # cs" "is_digit c" by blast
      with True False assms(1) nd show ?thesis by (auto simp: show_int_def)
    next
      case jp: False
      with False assms(1) have "show_nat (nat i) @ r = show_nat (nat j) @ s"
        by (simp add: show_int_def)
      from digits_split[OF this show_nat_digits show_nat_digits assms(2,3)]
      have "show_nat (nat i) = show_nat (nat j)" and rs: "r = s" by simp_all
      from show_nat_inj[OF this(1)] False jp have "i = j" by simp
      with rs show ?thesis by simp
    qed
  qed
qed

lemma stringify_head: "\<exists>c cs. stringify v = c # cs \<and> starts v c"
proof (cases v)
  case (JNum i)
  with show_int_head[of i] show ?thesis by auto
qed (auto simp: quote_def)

lemma starts_not_sep: "starts v c \<Longrightarrow> c \<noteq> CHR '','' \<and> c \<noteq> CHR '']'' \<and> c \<noteq> CHR ''}''"
  by (cases v) (auto simp: is_digit_def split: if_splits)

lemma starts_kind:
  "starts v c \<Longrightarrow> starts w c \<Longrightarrow>
     (case v of JNull \<Rightarrow> w = JNull | JBool b \<Rightarrow> w = JBool b | JNum i \<Rightarrow> (\<exists>j. w = JNum j)
      | JStr s \<Rightarrow> (\<exists>t. w = JStr t) | JArr xs \<Rightarrow> (\<exists>ys. w = JArr ys) | JObj kvs \<Rightarrow> (\<exists>kvs'. w = JObj kvs'))"
  by (cases v; cases w) (auto simp: is_digit_def split: if_splits)

lemma same_kind:
  assumes "stringify v @ r = stringify w @ s"
  shows "(case v of JNull \<Rightarrow> w = JNull | JBool b \<Rightarrow> w = JBool b | JNum i \<Rightarrow> (\<exists>j. w = JNum j)
      | JStr s \<Rightarrow> (\<exists>t. w = JStr t) | JArr xs \<Rightarrow> (\<exists>ys. w = JArr ys) | JObj kvs \<Rightarrow> (\<exists>kvs'. w = JObj kvs'))"
proof -
  from stringify_head[of v] obtain c cs where v: "stringify v = c # cs" "starts v c" by blast
  from stringify_head[of w] obtain c' cs' where w: "stringify w = c' # cs'" "starts w c'" by blast
  from assms v w have "c = c'" by simp
  with v w show ?thesis using starts_kind by blast
qed

lemma delim_sep: "t \<noteq> [] \<Longrightarrow> hd t \<in> {CHR '','', cl} \<Longrightarrow> cl = CHR '']'' \<or> cl = CHR ''}'' \<Longrightarrow> delim t"
  by (auto simp: delim_def is_digit_def)

lemma stringify_unique:
  "stringify v @ r = stringify w @ s \<Longrightarrow> delim r \<Longrightarrow> delim s \<Longrightarrow> v = w \<and> r = s"
proof (induction v arbitrary: w r s)
  case JNull
  from same_kind[OF JNull(1)] JNull(1) show ?case by simp
next
  case (JBool b)
  from same_kind[OF JBool(1)] JBool(1) show ?case by simp
next
  case (JNum i)
  from same_kind[OF JNum(1)] obtain j where w: "w = JNum j" by auto
  with JNum show_int_unique[of i r j s] show ?case by (simp add: delim_def)
next
  case (JStr x)
  from same_kind[OF JStr(1)] obtain t where w: "w = JStr t" by auto
  with JStr(1) quote_unique[of x r t s] show ?case by simp
next
  case (JArr xs)
  from same_kind[OF JArr(2)] obtain ys where w: "w = JArr ys" by auto
  have el: "x = y \<and> t = t'"
    if "x \<in> set xs" "stringify x @ t = stringify y @ t'" "t \<noteq> []" "t' \<noteq> []"
       "hd t \<in> {CHR '','', CHR '']''}" "hd t' \<in> {CHR '','', CHR '']''}" for x y t t'
    using JArr.IH[OF that(1,2)] delim_sep[OF that(3,5)] delim_sep[OF that(4,6)] by simp
  have hd: "stringify y \<noteq> [] \<and> hd (stringify y) \<noteq> CHR '']''" for y
    using stringify_head[of y] starts_not_sep by fastforce
  have eq: "join '','' (map stringify xs) @ CHR '']'' # r = join '','' (map stringify ys) @ CHR '']'' # s"
    using JArr(2) w by simp
  from join_unique[of xs stringify "CHR '']''" r ys s, OF el hd _ eq] w show ?case by simp
next
  case (JObj kvs)
  from same_kind[OF JObj(2)] obtain kvs' where w: "w = JObj kvs'" by auto
  let ?f = "\<lambda>kv. quote (fst kv) @ '':'' @ stringify (snd kv)"
  have el: "x = y \<and> t = t'"
    if "x \<in> set kvs" "?f x @ t = ?f y @ t'" "t \<noteq> []" "t' \<noteq> []"
       "hd t \<in> {CHR '','', CHR ''}''}" "hd t' \<in> {CHR '','', CHR ''}''}" for x y t t'
  proof -
    from that(2) have "quote (fst x) @ ('':'' @ stringify (snd x) @ t) = quote (fst y) @ ('':'' @ stringify (snd y) @ t')"
      by simp
    from quote_unique[OF this] have k: "fst x = fst y" and
      e: "stringify (snd x) @ t = stringify (snd y) @ t'" by simp_all
    have "snd x \<in> Basic_BNFs.snds x" by (cases x) simp
    from JObj.IH[OF that(1) this e] delim_sep[OF that(3,5)] delim_sep[OF that(4,6)]
    have "snd x = snd y \<and> t = t'" by simp
    with k show ?thesis by (simp add: prod_eq_iff)
  qed
  have hd: "?f y \<noteq> [] \<and> hd (?f y) \<noteq> CHR ''}''" for y
    by (simp add: quote_def)
  have eq: "join '','' (map ?f kvs) @ CHR ''}'' # r = join '','' (map ?f kvs') @ CHR ''}'' # s"
    using JObj(2) w by simp
  from join_unique[of kvs ?f "CHR ''}''" r kvs' s, OF el hd _ eq] w show ?case by simp
qed

lemma stringify_inj: "stringify a = stringify b \<Longrightarrow> a = b"
  using stringify_unique[of a "[]" b "[]"] by (simp add: delim_def)

section \<open>Reconciling twice\<close>

lemma mkdirSync_node_at:
  "mkdirSync p d = Inr d' \<Longrightarrow>
   node_at d p = None \<and> node_at d' q = (if q = p then Some Dir else node_at d q)"
  by (auto simp: mkdirSync_def node_at_def map_of_append map_add_def
           split: option.splits if_splits)

lemma unlinkSync_node_at:
  "unlinkSync p d = Inr d' \<Longrightarrow>
   node_at d p \<noteq> Some Dir \<and> node_at d' q = (if q = p then None else node_at d q)"
  by (auto simp: unlinkSync_def node_at_def delete_conv' split: option.splits node.splits if_splits)

lemma writeFileSync_node_at:
  "writeFileSync p c d = Inr d' \<Longrightarrow>
   node_at d p \<noteq> Some Dir \<and> node_at d' q = (if q = p then Some (File c) else node_at d q)"
  by (auto simp: writeFileSync_def node_at_def update_conv' split: option.splits node.splits if_splits)

lemma files_changed_refl: "files_changed P d d"
  by (simp add: files_changed_def)

lemma files_changedD:
  "files_changed P d d' \<Longrightarrow>
   node_at d' q = node_at d q \<or> (P q \<and> node_at d q \<noteq> Some Dir \<and> node_at d' q \<noteq> Some Dir)"
  by (simp add: files_changed_def)

lemma files_changed_trans:
  assumes "files_changed P d d1" and "files_changed P d1 d2"
  shows "files_changed P d d2"
  unfolding files_changed_def
proof
  fix q
  from files_changedD[OF assms(1), of q] files_changedD[OF assms(2), of q]
  show "node_at d2 q = node_at d q \<or> (P q \<and> node_at d q \<noteq> Some Dir \<and> node_at d2 q \<noteq> Some Dir)"
    by auto
qed

lemma files_changed_mono:
  assumes "files_changed P d d'" and "\<And>q. P q \<Longrightarrow> Q q"
  shows "files_changed Q d d'"
  unfolding files_changed_def
proof
  fix q
  from files_changedD[OF assms(1), of q] assms(2)[of q]
  show "node_at d' q = node_at d q \<or> (Q q \<and> node_at d q \<noteq> Some Dir \<and> node_at d' q \<noteq> Some Dir)"
    by auto
qed

lemma files_changed_write:
  "writeFileSync p c d = Inr d' \<Longrightarrow> P p \<Longrightarrow> files_changed P d d'"
  using writeFileSync_node_at[of p c d d'] unfolding files_changed_def by auto

lemma files_changed_unlink:
  "unlinkSync p d = Inr d' \<Longrightarrow> P p \<Longrightarrow> files_changed P d d'"
  using unlinkSync_node_at[of p d d'] unfolding files_changed_def by auto

lemma unlink_all_changed:
  "unlink_all ps d = (d', r) \<Longrightarrow> files_changed (\<lambda>q. q \<in> set ps) d d'"
proof (induction ps arbitrary: d)
  case Nil then show ?case by (simp add: files_changed_refl)
next
  case (Cons p ps)
  show ?case
  proof (cases "unlinkSync p d")
    case (Inl e)
    with Cons.prems show ?thesis by (simp add: files_changed_refl)
  next
    case (Inr d1)
    with Cons.prems have "unlink_all ps d1 = (d', r)" by simp
    from Cons.IH[OF this] have "files_changed (\<lambda>q. q \<in> set (p # ps)) d1 d'"
      by (rule files_changed_mono) simp
    moreover have "files_changed (\<lambda>q. q \<in> set (p # ps)) d d1"
      using Inr by (rule files_changed_unlink) simp
    ultimately show ?thesis by (rule files_changed_trans[rotated])
  qed
qed

lemma write_units_changed:
  "write_units beautify dir mv units new d = (d', r) \<Longrightarrow>
   files_changed (\<lambda>q. \<exists>m. q = dir @ [m @ ''.js'']) d d'"
proof (induction units arbitrary: new d)
  case Nil then show ?case by (simp add: files_changed_refl)
next
  case (Cons u units)
  obtain key machineDef where u: "u = (key, machineDef)" by (cases u)
  let ?new = "new\<lparr>machineVersions := set_prop (master_of key) (version_of key) (machineVersions new),
                machine_list := machine_list new @ [master_of key]\<rparr>"
  show ?case
  proof (cases "needs_write mv (master_of key) (version_of key)")
    case False
    with Cons.prems u have "write_units beautify dir mv units ?new d = (d', r)" by (simp add: Let_def)
    from Cons.IH[OF this] show ?thesis .
  next
    case True
    show ?thesis
    proof (cases "writeFileSync (dir @ [master_of key @ ''.js'']) (Text (beautify (render machineDef))) d")
      case (Inl e)
      with True Cons.prems u show ?thesis by (simp add: Let_def files_changed_refl)
    next
      case (Inr d1)
      with True Cons.prems u have "write_units beautify dir mv units ?new d1 = (d', r)"
        by (simp add: Let_def)
      from Cons.IH[OF this] have "files_changed (\<lambda>q. \<exists>m. q = dir @ [m @ ''.js'']) d1 d'" .
      moreover have "files_changed (\<lambda>q. \<exists>m. q = dir @ [m @ ''.js'']) d d1"
        using Inr by (rule files_changed_write) blast
      ultimately show ?thesis by (rule files_changed_trans[rotated])
    qed
  qed
qed

lemma write_units_builds:
  "write_units beautify dir mv units new d = (d', Returned new') \<Longrightarrow> new' = build_manifest units new"
proof (induction units arbitrary: new d)
  case Nil then show ?case by simp
next
  case (Cons u units)
  obtain key machineDef where u: "u = (key, machineDef)" by (cases u)
  let ?new = "new\<lparr>machineVersions := set_prop (master_of key) (version_of key) (machineVersions new),
                machine_list := machine_list new @ [master_of key]\<rparr>"
  from Cons.prems u obtain d1 where "write_units beautify dir mv units ?new d1 = (d', Returned new')"
    by (auto simp: Let_def split: if_splits sum.splits)
  from Cons.IH[OF this] u show ?case by simp
qed

lemma write_units_idle:
  "\<forall>u \<in> set units. \<not> needs_write mv (master_of (fst u)) (version_of (fst u)) \<Longrightarrow>
   write_units beautify dir mv units new d = (d, Returned (build_manifest units new))"
  by (induction units arbitrary: new) (auto simp: Let_def)

lemma wf_diskD: "wf_disk d \<Longrightarrow> node_at d q = Some n \<Longrightarrow> node_at d (butlast q) = Some Dir"
  by (simp add: wf_disk_def)

lemma wf_diskI:
  "list_all (\<lambda>e. node_at d (butlast (fst e)) = Some Dir) (tree d) \<Longrightarrow> wf_disk d"
  unfolding wf_disk_def
proof (intro allI impI)
  fix q
  assume a: "list_all (\<lambda>e. node_at d (butlast (fst e)) = Some Dir) (tree d)" and b: "node_at d q \<noteq> None"
  show "node_at d (butlast q) = Some Dir"
  proof (cases "q = []")
    case True then show ?thesis by (simp add: node_at_def)
  next
    case False
    with b obtain n where "map_of (tree d) q = Some n" by (auto simp: node_at_def)
    then have "(q, n) \<in> set (tree d)" by (rule map_of_SomeD)
    with a show ?thesis by (auto simp: list_all_iff)
  qed
qed

lemma wf_prefix:
  "wf_disk d \<Longrightarrow> node_at d (xs @ ys) \<noteq> None \<Longrightarrow> ys \<noteq> [] \<Longrightarrow> node_at d xs = Some Dir"
proof (induction ys rule: rev_induct)
  case Nil then show ?case by simp
next
  case (snoc y ys)
  from snoc.prems(1,2) have p: "node_at d (xs @ ys) = Some Dir"
    using wf_diskD[of d "xs @ ys @ [y]"] by (auto simp: butlast_append)
  show ?case
  proof (cases "ys = []")
    case True with p show ?thesis by simp
  next
    case False
    with snoc.IH[OF snoc.prems(1)] p show ?thesis by simp
  qed
qed

lemma wf_mkdir: "wf_disk d \<Longrightarrow> mkdirSync p d = Inr d' \<Longrightarrow> wf_disk d'"
  unfolding wf_disk_def
proof (intro allI impI)
  fix q
  assume wf: "\<forall>q. node_at d q \<noteq> None \<longrightarrow> node_at d (butlast q) = Some Dir"
     and mk: "mkdirSync p d = Inr d'" and q: "node_at d' q \<noteq> None"
  note na = mkdirSync_node_at[OF mk]
  have par: "node_at d (butlast p) = Some Dir"
    using mk by (auto simp: mkdirSync_def split: option.splits if_splits)
  show "node_at d' (butlast q) = Some Dir"
  proof (cases "q = p")
    case True
    with par na[of "butlast p"] show ?thesis by auto
  next
    case False
    with q na[of q] have "node_at d q \<noteq> None" by simp
    with wf have "node_at d (butlast q) = Some Dir" by blast
    with na[of "butlast q"] show ?thesis by auto
  qed
qed

lemma wf_write: "wf_disk d \<Longrightarrow> writeFileSync p c d = Inr d' \<Longrightarrow> wf_disk d'"
  unfolding wf_disk_def
proof (intro allI impI)
  fix q
  assume wf: "\<forall>q. node_at d q \<noteq> None \<longrightarrow> node_at d (butlast q) = Some Dir"
     and wr: "writeFileSync p c d = Inr d'" and q: "node_at d' q \<noteq> None"
  note na = writeFileSync_node_at[OF wr]
  have par: "node_at d (butlast p) = Some Dir"
    using wr wf by (auto simp: writeFileSync_def split: option.splits node.splits if_splits)
  have pn: "node_at d p \<noteq> Some Dir" using na[of p] by simp
  show "node_at d' (butlast q) = Some Dir"
  proof (cases "q = p")
    case True
    have "butlast p \<noteq> p" using par pn by auto
    with True par na[of "butlast p"] show ?thesis by simp
  next
    case False
    with q na[of q] have "node_at d q \<noteq> None" by simp
    with wf have b: "node_at d (butlast q) = Some Dir" by blast
    with pn have "butlast q \<noteq> p" by auto
    with b na[of "butlast q"] show ?thesis by simp
  qed
qed

lemma wf_unlink: "wf_disk d \<Longrightarrow> unlinkSync p d = Inr d' \<Longrightarrow> wf_disk d'"
  unfolding wf_disk_def
proof (intro allI impI)
  fix q
  assume wf: "\<forall>q. node_at d q \<noteq> None \<longrightarrow> node_at d (butlast q) = Some Dir"
     and ul: "unlinkSync p d = Inr d'" and q: "node_at d' q \<noteq> None"
  note na = unlinkSync_node_at[OF ul]
  have pn: "node_at d p \<noteq> Some Dir" using na[of p] by simp
  from q na[of q] have "node_at d q \<noteq> None" by (auto split: if_splits)
  with wf have b: "node_at d (butlast q) = Some Dir" by blast
  with pn have "butlast q \<noteq> p" by auto
  with b na[of "butlast q"] show "node_at d' (butlast q) = Some Dir" by simp
qed

lemma wf_ensure_dir: "wf_disk d \<Longrightarrow> wf_disk (ensure_dir p d)"
  by (auto simp: ensure_dir_def wf_mkdir split: sum.splits)

lemma wf_unlink_all: "wf_disk d \<Longrightarrow> unlink_all ps d = (d', r) \<Longrightarrow> wf_disk d'"
proof (induction ps arbitrary: d)
  case Nil then show ?case by simp
next
  case (Cons p ps)
  show ?case
  proof (cases "unlinkSync p d")
    case (Inl e) with Cons.prems show ?thesis by simp
  next
    case (Inr d1)
    with Cons.prems have "unlink_all ps d1 = (d', r)" by simp
    from Cons.IH[OF wf_unlink[OF Cons.prems(1) Inr] this] show ?thesis .
  qed
qed

lemma wf_write_units:
  "wf_disk d \<Longrightarrow> write_units beautify dir mv units new d = (d', r) \<Longrightarrow> wf_disk d'"
proof (induction units arbitrary: new d)
  case Nil then show ?case by simp
next
  case (Cons u units)
  obtain key machineDef where u: "u = (key, machineDef)" by (cases u)
  let ?new = "new\<lparr>machineVersions := set_prop (master_of key) (version_of key) (machineVersions new),
                machine_list := machine_list new @ [master_of key]\<rparr>"
  show ?case
  proof (cases "needs_write mv (master_of key) (version_of key)")
    case False
    with Cons.prems u have "write_units beautify dir mv units ?new d = (d', r)" by (simp add: Let_def)
    from Cons.IH[OF Cons.prems(1) this] show ?thesis .
  next
    case True
    show ?thesis
    proof (cases "writeFileSync (dir @ [master_of key @ ''.js'']) (Text (beautify (render machineDef))) d")
      case (Inl e)
      with True Cons.prems u show ?thesis by (simp add: Let_def)
    next
      case (Inr d1)
      with True Cons.prems u have "write_units beautify dir mv units ?new d1 = (d', r)"
        by (simp add: Let_def)
      from Cons.IH[OF wf_write[OF Cons.prems(1) Inr] this] show ?thesis .
    qed
  qed
qed

lemma not_manifest_name: "m @ ''.js'' \<noteq> ''package.json''"
proof
  assume "m @ ''.js'' = ''package.json''"
  then have "last (m @ ''.js'') = last ''package.json''" by simp
  then show False by simp
qed

lemma ensure_dir_node_at:
  "node_at (ensure_dir p d) q =
     (if q = p \<and> node_at d p = None \<and> node_at d (butlast p) = Some Dir then Some Dir else node_at d q)"
proof (cases "mkdirSync p d")
  case (Inl e)
  then have "\<not> (node_at d p = None \<and> node_at d (butlast p) = Some Dir)"
    by (auto simp: mkdirSync_def split: option.splits if_splits)
  with Inl show ?thesis by (auto simp: ensure_dir_def)
next
  case (Inr d')
  then have "node_at d p = None \<and> node_at d (butlast p) = Some Dir"
    by (auto simp: mkdirSync_def split: option.splits if_splits)
  with Inr mkdirSync_node_at[OF Inr, of q] show ?thesis by (auto simp: ensure_dir_def)
qed

lemma load_manifest_cong:
  assumes "node_at d dir = Some Dir" and "node_at d' dir = Some Dir"
      and "node_at d' (dir @ [''package.json'']) = node_at d (dir @ [''package.json''])"
  shows "load_manifest parse dir d' = load_manifest parse dir d"
  using assms missing_child[of d dir "''package.json''"] missing_child[of d' dir "''package.json''"]
  by (simp add: load_manifest_def readFileSync_def split: option.splits)

lemma missing_under_file: "node_at d dir = Some (File c) \<Longrightarrow> missing d (dir @ [x]) = ENOTDIR"
proof -
  assume a: "node_at d dir = Some (File c)"
  have m: "missing d (dir @ [x]) = missing_up d (rev dir)" by (simp add: missing_def)
  show ?thesis
  proof (cases "rev dir")
    case Nil then show ?thesis using a by (simp add: node_at_def)
  next
    case (Cons y r)
    then have "rev (y # r) = dir" by (metis rev_rev_ident)
    then show ?thesis using m Cons a by simp
  qed
qed

text \<open>After the attempt to make it, a pack directory whose manifest loads is a directory.\<close>

lemma loaded_dir:
  assumes wf: "wf_disk d" and par: "node_at d (butlast dir) = Some Dir"
      and ld: "load_manifest parse dir (ensure_dir dir d) = Inr pj"
  shows "node_at (ensure_dir dir d) dir = Some Dir"
proof -
  let ?d1 = "ensure_dir dir d"
  have wf1: "wf_disk ?d1" using wf by (rule wf_ensure_dir)
  have ex: "node_at ?d1 dir \<noteq> None" using par by (simp add: ensure_dir_node_at)
  show ?thesis
  proof (cases "node_at ?d1 (dir @ [''package.json''])")
    case (Some n)
    then show ?thesis using wf_diskD[OF wf1, of "dir @ [''package.json'']" n] by simp
  next
    case None
    from ex obtain n where n: "node_at ?d1 dir = Some n" by auto
    show ?thesis
    proof (cases n)
      case Dir with n show ?thesis by simp
    next
      case (File c)
      with n have "missing ?d1 (dir @ [''package.json'']) = ENOTDIR"
        by (simp add: missing_under_file)
      with None ld show ?thesis by (simp add: load_manifest_def readFileSync_def)
    qed
  qed
qed

lemma units_phase_returned:
  assumes "units_phase parse beautify mdir p spec d = (d3, Returned (pj, new))"
  shows "load_manifest parse (mdir @ [p]) (ensure_dir (mdir @ [p]) d) = Inr pj"
    and "new = candidate spec"
    and "files_changed (\<lambda>q. (\<exists>m. q = mdir @ [m @ ''.js'']) \<or> (\<exists>m. q = mdir @ [p, m @ ''.js'']))
           (ensure_dir (mdir @ [p]) d) d3"
    and "wf_disk d \<Longrightarrow> wf_disk d3"
proof -
  let ?dir = "mdir @ [p]"
  let ?d1 = "ensure_dir ?dir d"
  let ?P = "\<lambda>q. (\<exists>m. q = mdir @ [m @ ''.js'']) \<or> (\<exists>m. q = mdir @ [p, m @ ''.js''])"
  from assms obtain mv d2 u where
    ld: "load_manifest parse ?dir ?d1 = Inr pj" and
    mv: "machineVersions_of pj = Inr mv" and
    ul: "unlink_all (map (\<lambda>master. mdir @ [master @ ''.js''])
           (difference (map fst mv) (map (\<lambda>kv. master_of (fst kv)) (machines spec)))) ?d1 = (d2, Returned u)" and
    wu: "write_units beautify ?dir mv (machines spec)
           \<lparr>deps = dependencies spec, machine_list = [], machineVersions = []\<rparr> d2 = (d3, Returned new)"
    by (auto simp: units_phase_def Let_def split: sum.splits prod.splits outcome.splits)
  show "load_manifest parse ?dir ?d1 = Inr pj" by (rule ld)
  show "new = candidate spec" using write_units_builds[OF wu] by (simp add: candidate_def)
  have 1: "files_changed ?P ?d1 d2"
    by (rule files_changed_mono[OF unlink_all_changed[OF ul]]) auto
  have 2: "files_changed ?P d2 d3"
    by (rule files_changed_mono[OF write_units_changed[OF wu]]) auto
  from 1 2 show "files_changed ?P ?d1 d3" by (rule files_changed_trans)
  show "wf_disk d3" if "wf_disk d"
    using wf_write_units[OF wf_unlink_all[OF wf_ensure_dir[OF that] ul] wu] .
qed

lemma manifest_phase_returned:
  assumes "manifest_phase beautify dir pj new d3 = (d', Returned r)"
  shows "files_changed (\<lambda>q. q = dir @ [''package.json''] \<or> q = dir @ [''index.js'']) d3 d'"
    and "wf_disk d3 \<Longrightarrow> wf_disk d'"
    and "r = Unchanged \<Longrightarrow> d' = d3 \<and> beautify (stringify (manifest_json new)) = beautify (stringify pj)"
    and "r \<noteq> Unchanged \<Longrightarrow> node_at d' (dir @ [''package.json'']) = Some (File (Text (beautify (stringify (manifest_json new)))))"
proof -
  let ?P = "\<lambda>q. q = dir @ [''package.json''] \<or> q = dir @ [''index.js'']"
  have all: "files_changed ?P d3 d' \<and> (wf_disk d3 \<longrightarrow> wf_disk d')
     \<and> (r = Unchanged \<longrightarrow> d' = d3 \<and> beautify (stringify (manifest_json new)) = beautify (stringify pj))
     \<and> (r \<noteq> Unchanged \<longrightarrow> node_at d' (dir @ [''package.json'']) = Some (File (Text (beautify (stringify (manifest_json new))))))"
  proof (cases "beautify (stringify (manifest_json new)) = beautify (stringify pj)")
    case True
    with assms have e: "d' = d3" "r = Unchanged" by (simp_all add: manifest_phase_def)
    with True show ?thesis by (simp add: files_changed_refl)
  next
    case False
    with assms obtain d4 where
      w1: "writeFileSync (dir @ [''package.json'']) (Text (beautify (stringify (manifest_json new)))) d3 = Inr d4" and
      w2: "writeFileSync (dir @ [''index.js'']) (Text index_stub) d4 = Inr d'" and
      r: "r = Pushed dir"
      by (auto simp: manifest_phase_def split: sum.splits)
    have 1: "files_changed ?P d3 d4" using w1 by (rule files_changed_write) simp
    have 2: "files_changed ?P d4 d'" using w2 by (rule files_changed_write) simp
    from 1 2 have fc: "files_changed ?P d3 d'" by (rule files_changed_trans)
    have wf: "wf_disk d3 \<longrightarrow> wf_disk d'" using wf_write[OF wf_write[OF _ w1] w2] by simp
    have "node_at d4 (dir @ [''package.json'']) = Some (File (Text (beautify (stringify (manifest_json new)))))"
      using writeFileSync_node_at[OF w1, of "dir @ [''package.json'']"] by simp
    then have "node_at d' (dir @ [''package.json'']) = Some (File (Text (beautify (stringify (manifest_json new)))))"
      using writeFileSync_node_at[OF w2, of "dir @ [''package.json'']"] by simp
    with fc wf r show ?thesis by simp
  qed
  from all show "files_changed ?P d3 d'" by simp
  from all show "wf_disk d3 \<Longrightarrow> wf_disk d'" by simp
  from all show "r = Unchanged \<Longrightarrow> d' = d3 \<and> beautify (stringify (manifest_json new)) = beautify (stringify pj)"
    by simp
  from all show "r \<noteq> Unchanged \<Longrightarrow> node_at d' (dir @ [''package.json'']) = Some (File (Text (beautify (stringify (manifest_json new)))))"
    by simp
qed

lemma files_changed_dir: "files_changed P d d' \<Longrightarrow> (node_at d' q = Some Dir) = (node_at d q = Some Dir)"
  using files_changedD[of P d d' q] by auto

lemma writePack_settles:
  assumes can: "canonical beautify" and rb: "reads_back parse beautify spec"
      and wf: "wf_disk d" and root: "node_at d mdir = Some Dir"
      and wp: "writePack parse beautify mdir p spec d = (d', Returned r)"
  shows "wf_disk d'" and "settled parse mdir d' (p, spec)" and "pack_changed mdir p d d'"
proof -
  let ?dir = "mdir @ [p]"
  let ?d1 = "ensure_dir ?dir d"
  let ?P1 = "\<lambda>q. (\<exists>m. q = mdir @ [m @ ''.js'']) \<or> (\<exists>m. q = mdir @ [p, m @ ''.js''])"
  let ?P2 = "\<lambda>q. q = ?dir @ [''package.json''] \<or> q = ?dir @ [''index.js'']"
  from wp obtain d3 pj new where
    up: "units_phase parse beautify mdir p spec d = (d3, Returned (pj, new))" and
    mp: "manifest_phase beautify ?dir pj new d3 = (d', Returned r)"
    by (auto simp: writePack_def split: prod.splits outcome.splits)
  note u = units_phase_returned[OF up]
  note m = manifest_phase_returned[OF mp]
  show wf': "wf_disk d'" using m(2)[OF u(4)[OF wf]] .
  have d1dir: "node_at ?d1 ?dir = Some Dir"
    using loaded_dir[OF wf _ u(1)] root by simp
  have d3dir: "node_at d3 ?dir = Some Dir" using files_changed_dir[OF u(3)] d1dir by simp
  have d'dir: "node_at d' ?dir = Some Dir" using files_changed_dir[OF m(1)] d3dir by simp
  have new: "new = candidate spec" by (rule u(2))
  have "load_manifest parse ?dir d' = Inr (manifest_json (candidate spec))"
  proof (cases "r = Unchanged")
    case True
    from m(3)[OF True] have e: "d' = d3" and t: "beautify (stringify (manifest_json new)) = beautify (stringify pj)"
      by simp_all
    from can t have pj: "pj = manifest_json new" by (auto simp: canonical_def)
    have "\<not> ?P1 (?dir @ [''package.json''])" using not_manifest_name by auto
    with files_changedD[OF u(3), of "?dir @ [''package.json'']"]
    have "node_at d3 (?dir @ [''package.json'']) = node_at ?d1 (?dir @ [''package.json''])" by blast
    from load_manifest_cong[OF d1dir d3dir this] u(1) pj new e show ?thesis by simp
  next
    case False
    from rb new have "parse (beautify (stringify (manifest_json new))) = Some (manifest_json (candidate spec))"
      by (simp add: reads_back_def)
    with m(4)[OF False] show ?thesis by (simp add: load_manifest_def readFileSync_def)
  qed
  with d'dir show "settled parse mdir d' (p, spec)" by (simp add: settled_def)
  show "pack_changed mdir p d d'"
    unfolding pack_changed_def
  proof
    fix q
    from files_changedD[OF u(3), of q] files_changedD[OF m(1), of q]
    have 13: "node_at d' q = node_at ?d1 q
        \<or> (((\<exists>y. q = mdir @ [y]) \<or> (\<exists>y. q = mdir @ [p, y]))
            \<and> node_at ?d1 q \<noteq> Some Dir \<and> node_at d' q \<noteq> Some Dir)"
      by auto
    show "node_at d' q = node_at d q
        \<or> (q = mdir @ [p] \<and> node_at d q = None \<and> node_at d' q = Some Dir)
        \<or> (((\<exists>y. q = mdir @ [y]) \<or> (\<exists>y. q = mdir @ [p, y]))
            \<and> node_at d q \<noteq> Some Dir \<and> node_at d' q \<noteq> Some Dir)"
    proof (cases "q = ?dir \<and> node_at d ?dir = None")
      case True
      with d'dir show ?thesis by simp
    next
      case False
      then have "node_at ?d1 q = node_at d q" by (auto simp: ensure_dir_node_at)
      with 13 show ?thesis by auto
    qed
  qed
qed

text \<open>What a pack that is processed leaves of another pack, and of the cache root.\<close>

lemma pack_changed_other:
  assumes pc: "pack_changed mdir p d d'" and ne: "x \<noteq> p"
  shows "settled parse mdir d (x, sx) \<Longrightarrow> settled parse mdir d' (x, sx)"
proof -
  assume s: "settled parse mdir d (x, sx)"
  then have dir: "node_at d (mdir @ [x]) = Some Dir"
    and ld: "load_manifest parse (mdir @ [x]) d = Inr (manifest_json (candidate sx))"
    by (simp_all add: settled_def)
  from pc have a: "node_at d' (mdir @ [x]) = node_at d (mdir @ [x])
        \<or> (mdir @ [x] = mdir @ [p] \<and> node_at d (mdir @ [x]) = None \<and> node_at d' (mdir @ [x]) = Some Dir)
        \<or> (((\<exists>y. mdir @ [x] = mdir @ [y]) \<or> (\<exists>y. mdir @ [x] = mdir @ [p, y]))
            \<and> node_at d (mdir @ [x]) \<noteq> Some Dir \<and> node_at d' (mdir @ [x]) \<noteq> Some Dir)"
    unfolding pack_changed_def by blast
  with dir have dir': "node_at d' (mdir @ [x]) = Some Dir" by auto
  let ?q = "(mdir @ [x]) @ [''package.json'']"
  from pc have b: "node_at d' ?q = node_at d ?q
        \<or> (?q = mdir @ [p] \<and> node_at d ?q = None \<and> node_at d' ?q = Some Dir)
        \<or> (((\<exists>y. ?q = mdir @ [y]) \<or> (\<exists>y. ?q = mdir @ [p, y]))
            \<and> node_at d ?q \<noteq> Some Dir \<and> node_at d' ?q \<noteq> Some Dir)"
    unfolding pack_changed_def by blast
  with ne have "node_at d' ?q = node_at d ?q" by auto
  from load_manifest_cong[OF dir dir' this] ld dir' show ?thesis by (simp add: settled_def)
qed

lemma pack_changed_dirs:
  assumes pc: "pack_changed mdir p d d'"
  shows "node_at d' (mdir @ [x]) = Some Dir \<Longrightarrow> x = p \<or> node_at d (mdir @ [x]) = Some Dir"
    and "node_at d mdir = Some Dir \<Longrightarrow> node_at d' mdir = Some Dir"
proof -
  from pc have a: "node_at d' (mdir @ [x]) = node_at d (mdir @ [x])
        \<or> (mdir @ [x] = mdir @ [p] \<and> node_at d (mdir @ [x]) = None \<and> node_at d' (mdir @ [x]) = Some Dir)
        \<or> (((\<exists>y. mdir @ [x] = mdir @ [y]) \<or> (\<exists>y. mdir @ [x] = mdir @ [p, y]))
            \<and> node_at d (mdir @ [x]) \<noteq> Some Dir \<and> node_at d' (mdir @ [x]) \<noteq> Some Dir)"
    unfolding pack_changed_def by blast
  then show "node_at d' (mdir @ [x]) = Some Dir \<Longrightarrow> x = p \<or> node_at d (mdir @ [x]) = Some Dir"
    by auto
  from pc have b: "node_at d' mdir = node_at d mdir
        \<or> (mdir = mdir @ [p] \<and> node_at d mdir = None \<and> node_at d' mdir = Some Dir)
        \<or> (((\<exists>y. mdir = mdir @ [y]) \<or> (\<exists>y. mdir = mdir @ [p, y]))
            \<and> node_at d mdir \<noteq> Some Dir \<and> node_at d' mdir \<noteq> Some Dir)"
    unfolding pack_changed_def by blast
  then show "node_at d mdir = Some Dir \<Longrightarrow> node_at d' mdir = Some Dir" by auto
qed

lemma build_manifest_versions:
  "\<forall>u \<in> set units. master_of (fst u) \<noteq> ''__proto__'' \<Longrightarrow>
   machineVersions (build_manifest units new) =
     fold (\<lambda>u. AList.update (master_of (fst u)) (version_of (fst u))) units (machineVersions new)"
  by (induction units new rule: build_manifest.induct) (simp_all add: set_prop_def)

lemma map_of_fold_update_other:
  "k \<notin> f ` set us \<Longrightarrow> map_of (fold (\<lambda>u. AList.update (f u) (g u)) us acc) k = map_of acc k"
  by (induction us arbitrary: acc) (auto simp: update_conv')

lemma map_of_fold_update:
  "distinct (map f us) \<Longrightarrow> u \<in> set us \<Longrightarrow>
   map_of (fold (\<lambda>u. AList.update (f u) (g u)) us acc) (f u) = Some (g u)"
proof (induction us arbitrary: acc)
  case Nil then show ?case by simp
next
  case (Cons a us)
  show ?case
  proof (cases "u = a")
    case True
    with Cons.prems have "f a \<notin> f ` set us" by auto
    from map_of_fold_update_other[OF this, of g "AList.update (f a) (g a) acc"] True
    show ?thesis by (simp add: update_conv')
  next
    case False
    with Cons.prems Cons.IH show ?thesis by simp
  qed
qed

lemma set_update_subset: "set (AList.update k v al) \<subseteq> insert (k, v) (set al)"
  by (induction al) auto

lemma set_fold_update:
  "set (fold (\<lambda>u. AList.update (f u) (g u)) us acc) \<subseteq> set acc \<union> (\<lambda>u. (f u, g u)) ` set us"
proof (induction us arbitrary: acc)
  case Nil then show ?case by simp
next
  case (Cons a us)
  have "set (fold (\<lambda>u. AList.update (f u) (g u)) us (AList.update (f a) (g a) acc))
        \<subseteq> set (AList.update (f a) (g a) acc) \<union> (\<lambda>u. (f u, g u)) ` set us"
    by (rule Cons.IH)
  with set_update_subset[of "f a" "g a" acc] show ?case by auto
qed

text \<open>The versions as they stand in the JSON of the manifest.\<close>

lemma map_of_json_versions:
  "\<forall>kv \<in> set mvc. snd kv \<noteq> None \<Longrightarrow>
   map_of (concat (map (\<lambda>kv. case snd kv of None \<Rightarrow> [] | Some v \<Rightarrow> [(fst kv, JStr v)]) mvc)) k
     = (case map_of mvc k of Some (Some v) \<Rightarrow> Some (JStr v) | _ \<Rightarrow> None)"
  by (induction mvc) (auto split: option.splits)

lemma keys_json_versions:
  "fst ` set (concat (map (\<lambda>kv. case snd kv of None \<Rightarrow> [] | Some v \<Rightarrow> [(fst kv, JStr v)]) mvc))
     \<subseteq> fst ` set mvc"
  by (induction mvc) (auto split: option.splits)

lemma machineVersions_of_manifest_json:
  "machineVersions_of (manifest_json m) =
     Inr (concat (map (\<lambda>kv. case snd kv of None \<Rightarrow> [] | Some v \<Rightarrow> [(fst kv, JStr v)]) (machineVersions m)))"
  by (cases "deps m") (simp_all add: machineVersions_of_def manifest_json_def get_prop_def own_props_def)

lemma settled_noop:
  assumes v: "versioned spec" and s: "settled parse mdir d (p, spec)"
  shows "writePack parse beautify mdir p spec d = (d, Returned Unchanged)"
proof -
  let ?dir = "mdir @ [p]"
  let ?units = "machines spec"
  let ?f = "\<lambda>u. master_of (fst u)" and ?g = "\<lambda>u. version_of (fst u)"
  let ?mvc = "machineVersions (candidate spec)"
  let ?mv = "concat (map (\<lambda>kv. case snd kv of None \<Rightarrow> [] | Some v \<Rightarrow> [(fst kv, JStr v)]) ?mvc)"
  from s have dir: "node_at d ?dir = Some Dir"
    and ld: "load_manifest parse ?dir d = Inr (manifest_json (candidate spec))"
    by (simp_all add: settled_def)
  from v have dist: "distinct (map ?f ?units)"
    and vers: "\<forall>u \<in> set ?units. \<exists>w. version_of (fst u) = Some w \<and> w \<noteq> []"
    and np: "\<forall>u \<in> set ?units. master_of (fst u) \<noteq> ''__proto__''"
    by (auto simp: versioned_def list_all_iff split: option.splits)
  have mvc: "?mvc = fold (\<lambda>u. AList.update (?f u) (?g u)) ?units []"
    by (simp add: candidate_def build_manifest_versions[OF np])
  have e: "ensure_dir ?dir d = d" using dir by (simp add: ensure_dir_def mkdirSync_def)
  have sub: "set ?mvc \<subseteq> (\<lambda>u. (?f u, ?g u)) ` set ?units"
    using set_fold_update[of ?f ?g ?units "[]"] by (simp add: mvc)
  have some: "\<forall>kv \<in> set ?mvc. snd kv \<noteq> None"
  proof
    fix kv assume "kv \<in> set ?mvc"
    with sub obtain u where "u \<in> set ?units" "kv = (?f u, ?g u)" by blast
    with vers show "snd kv \<noteq> None" by auto
  qed
  have "fst ` set ?mvc \<subseteq> ?f ` set ?units"
  proof
    fix k assume "k \<in> fst ` set ?mvc"
    then obtain kv where "kv \<in> set ?mvc" "k = fst kv" by blast
    with sub obtain u where "u \<in> set ?units" "kv = (?f u, ?g u)" by blast
    with \<open>k = fst kv\<close> show "k \<in> ?f ` set ?units" by simp
  qed
  with keys_json_versions[of ?mvc] have keys: "fst ` set ?mv \<subseteq> ?f ` set ?units"
    by (rule subset_trans)
  have del: "difference (map fst ?mv) (map (\<lambda>kv. master_of (fst kv)) ?units) = []"
    unfolding difference_def filter_empty_conv using keys by (simp add: subset_iff)
  have idle: "\<forall>u \<in> set ?units. \<not> needs_write ?mv (master_of (fst u)) (version_of (fst u))"
  proof
    fix u assume u: "u \<in> set ?units"
    from vers u obtain w where w: "version_of (fst u) = Some w" "w \<noteq> []" by blast
    have "map_of ?mvc (?f u) = Some (?g u)"
      unfolding mvc using dist u by (rule map_of_fold_update)
    with w have "map_of ?mv (master_of (fst u)) = Some (JStr w)"
      by (simp add: map_of_json_versions[OF some])
    with w show "\<not> needs_write ?mv (master_of (fst u)) (version_of (fst u))"
      by (simp add: needs_write_iff)
  qed
  have wu: "write_units beautify ?dir ?mv ?units
              \<lparr>deps = dependencies spec, machine_list = [], machineVersions = []\<rparr> d
            = (d, Returned (candidate spec))"
    using write_units_idle[OF idle] by (simp add: candidate_def)
  have up: "units_phase parse beautify mdir p spec d = (d, Returned (manifest_json (candidate spec), candidate spec))"
    by (simp add: units_phase_def Let_def e ld machineVersions_of_manifest_json del wu)
  show ?thesis
    by (simp add: writePack_def up manifest_phase_def)
qed

lemma iterator_returned:
  "iterator parse beautify opts item w = (w', Returned ()) \<Longrightarrow>
   \<exists>r. writePack parse beautify (machinesDir opts) (fst item) (snd item) (disk_of w) = (disk_of w', Returned r)"
  by (auto simp: iterator_def split: prod.splits outcome.splits ending.splits)

lemma each_loop_settles:
  assumes "canonical beautify" and "distinct (map fst items)"
      and "wf_disk (disk_of w)" and "node_at (disk_of w) (machinesDir opts) = Some Dir"
      and "each_loop parse beautify opts items w = (w', Returned ())"
      and "\<forall>item \<in> set items. reads_back parse beautify (snd item)"
  shows "wf_disk (disk_of w') \<and> node_at (disk_of w') (machinesDir opts) = Some Dir
       \<and> (\<forall>item \<in> set items. settled parse (machinesDir opts) (disk_of w') item)
       \<and> (\<forall>x sx. x \<notin> fst ` set items \<longrightarrow> settled parse (machinesDir opts) (disk_of w) (x, sx)
              \<longrightarrow> settled parse (machinesDir opts) (disk_of w') (x, sx))
       \<and> (\<forall>x. node_at (disk_of w') (machinesDir opts @ [x]) = Some Dir
              \<longrightarrow> x \<in> fst ` set items \<or> node_at (disk_of w) (machinesDir opts @ [x]) = Some Dir)"
  using assms(2-)
proof (induction items arbitrary: w)
  case Nil then show ?case by simp
next
  case (Cons item items)
  let ?m = "machinesDir opts"
  obtain w1 r1 where it: "iterator parse beautify opts item w = (w1, r1)"
    by (cases "iterator parse beautify opts item w")
  with Cons.prems(4) have r1: "r1 = Returned ()" and
    rest: "each_loop parse beautify opts items w1 = (w', Returned ())"
    by (auto split: outcome.splits)
  from iterator_returned[OF it[unfolded r1]] obtain r where
    wp: "writePack parse beautify ?m (fst item) (snd item) (disk_of w) = (disk_of w1, Returned r)" by blast
  from Cons.prems(5) have rb: "reads_back parse beautify (snd item)"
    and rbs: "\<forall>item \<in> set items. reads_back parse beautify (snd item)" by simp_all
  note s = writePack_settles[OF assms(1) rb Cons.prems(2,3) wp]
  have root1: "node_at (disk_of w1) ?m = Some Dir"
    using pack_changed_dirs(2)[OF s(3)] Cons.prems(3) by simp
  from Cons.prems(1) have dist: "distinct (map fst items)" and notin: "fst item \<notin> fst ` set items"
    by auto
  note ih = Cons.IH[OF dist s(1) root1 rest rbs]
  have item1: "settled parse ?m (disk_of w1) (fst item, snd item)" using s(2) .
  have a: "settled parse ?m (disk_of w') item"
    using ih notin item1 by (metis prod.collapse)
  have b: "settled parse ?m (disk_of w') (x, sx)"
    if "x \<notin> fst ` set (item # items)" "settled parse ?m (disk_of w) (x, sx)" for x sx
  proof -
    from that(1) have "x \<noteq> fst item" "x \<notin> fst ` set items" by auto
    from pack_changed_other[OF s(3) this(1) that(2)] ih this(2) show ?thesis by blast
  qed
  have c: "x \<in> fst ` set (item # items) \<or> node_at (disk_of w) (?m @ [x]) = Some Dir"
    if "node_at (disk_of w') (?m @ [x]) = Some Dir" for x
  proof -
    from ih that have "x \<in> fst ` set items \<or> node_at (disk_of w1) (?m @ [x]) = Some Dir" by blast
    with pack_changed_dirs(1)[OF s(3), of x] show ?thesis by auto
  qed
  from ih a b c show ?case by auto
qed

lemma each_loop_noop:
  "\<forall>item \<in> set items. versioned (snd item) \<and> settled parse (machinesDir opts) (disk_of w) item \<Longrightarrow>
   \<exists>w'. each_loop parse beautify opts items w = (w', Returned ())
        \<and> disk_of w' = disk_of w \<and> queue_of w' = queue_of w"
proof (induction items arbitrary: w)
  case Nil then show ?case by simp
next
  case (Cons item items)
  from Cons.prems have v: "versioned (snd item)"
    and s: "settled parse (machinesDir opts) (disk_of w) (fst item, snd item)" by simp_all
  let ?w1 = "w\<lparr>disk_of := disk_of w, each_of := each_done None (each_of w)\<rparr>"
  have it: "iterator parse beautify opts item w = (?w1, Returned ())"
    by (simp add: iterator_def settled_noop[OF v s])
  have "\<forall>item \<in> set items. versioned (snd item) \<and> settled parse (machinesDir opts) (disk_of ?w1) item"
    using Cons.prems by simp
  from Cons.IH[OF this] it show ?case by simp
qed

lemma mkdirs_from_noop:
  "(\<And>ys zs. p = ys @ zs \<Longrightarrow> ys \<noteq> [] \<Longrightarrow> node_at d (done @ ys) = Some Dir) \<Longrightarrow>
   mkdirs_from done p d = Inr d"
proof (induction p arbitrary: "done")
  case Nil then show ?case by simp
next
  case (Cons x r)
  have 1: "node_at d (done @ [x]) = Some Dir" using Cons.prems[of "[x]" r] by simp
  have "mkdirs_from (done @ [x]) r d = Inr d"
  proof (rule Cons.IH)
    fix ys zs assume "r = ys @ zs" "ys \<noteq> []"
    then show "node_at d ((done @ [x]) @ ys) = Some Dir"
      using Cons.prems[of "x # ys" zs] by simp
  qed
  with 1 show ?case by simp
qed

lemma rmdir_noop: "node_at d p \<noteq> Some Dir \<Longrightarrow> rmdirSyncRecursive p d = d"
  by (auto simp: rmdirSyncRecursive_def readdirSync_def split: option.splits node.splits)

lemma fold_rmdir_noop:
  "\<forall>n \<in> set xs. node_at d (r @ [n]) \<noteq> Some Dir \<Longrightarrow>
   fold (\<lambda>dir. rmdirSyncRecursive (r @ [dir])) xs d = d"
  by (induction xs) (simp_all add: rmdir_noop)

lemma prune_noop:
  assumes wf: "wf_disk d" and root: "node_at d (machinesDir opts) = Some Dir"
      and dirs: "\<And>x. node_at d (machinesDir opts @ [x]) = Some Dir \<Longrightarrow> x \<in> fst ` set dat"
  shows "prune opts dat d = Inr d"
proof -
  let ?m = "machinesDir opts"
  have mk: "mkdirsSync ?m d = Inr d"
    unfolding mkdirsSync_def
  proof (rule mkdirs_from_noop)
    fix ys zs assume p: "?m = ys @ zs" "ys \<noteq> []"
    show "node_at d ([] @ ys) = Some Dir"
    proof (cases "zs = []")
      case True with p root show ?thesis by simp
    next
      case False
      from wf_prefix[OF wf _ False, of ys] root p show ?thesis by simp
    qed
  qed
  obtain names where rd: "readdirSync ?m d = Inr names"
    using root by (simp add: readdirSync_def)
  have "\<forall>n \<in> set (difference names (map fst dat)). node_at d (?m @ [n]) \<noteq> Some Dir"
    using dirs by (auto simp: difference_def)
  from fold_rmdir_noop[OF this] mk rd show ?thesis by (simp add: prune_def)
qed

text \<open>What the pruner leaves for the reconciler.\<close>

lemma wf_mkdirs_from:
  "wf_disk d \<Longrightarrow> node_at d done = Some Dir \<Longrightarrow> mkdirs_from done p d = Inr d' \<Longrightarrow> wf_disk d'"
proof (induction p arbitrary: "done" d)
  case Nil then show ?case by simp
next
  case (Cons x r)
  let ?e = "d\<lparr>tree := tree d @ [(done @ [x], Dir)], writes := writes d @ [Mkdir (done @ [x])]\<rparr>"
  show ?case
  proof (cases "node_at d (done @ [x])")
    case None
    with Cons.prems(3) have 1: "mkdirs_from (done @ [x]) r ?e = Inr d'" by simp
    have mk: "mkdirSync (done @ [x]) d = Inr ?e"
      using None Cons.prems(2) by (simp add: mkdirSync_def)
    have "node_at ?e (done @ [x]) = Some Dir" using mkdirSync_node_at[OF mk, of "done @ [x]"] by simp
    from Cons.IH[OF wf_mkdir[OF Cons.prems(1) mk] this 1] show ?thesis .
  next
    case (Some n)
    show ?thesis
    proof (cases n)
      case (File c)
      with Some Cons.prems(3) show ?thesis by simp
    next
      case Dir
      with Some Cons.prems(3) have 1: "mkdirs_from (done @ [x]) r d = Inr d'" by simp
      from Cons.IH[OF Cons.prems(1) _ 1] Some Dir show ?thesis by simp
    qed
  qed
qed

lemma wf_rmdir: "wf_disk d \<Longrightarrow> p \<noteq> [] \<Longrightarrow> wf_disk (rmdirSyncRecursive p d)"
  unfolding wf_disk_def
proof (intro allI impI)
  fix q
  assume wf: "\<forall>q. node_at d q \<noteq> None \<longrightarrow> node_at d (butlast q) = Some Dir" and p: "p \<noteq> []"
     and q: "node_at (rmdirSyncRecursive p d) q \<noteq> None"
  note na = node_at_rmdir[OF p, of d]
  from q na[of q] have keep: "\<not> (node_at d p = Some Dir \<and> take (length p) q = p)" and ex: "node_at d q \<noteq> None"
    by (auto split: if_splits)
  from wf ex have par: "node_at d (butlast q) = Some Dir" by blast
  have "\<not> (node_at d p = Some Dir \<and> take (length p) (butlast q) = p)"
  proof
    assume a: "node_at d p = Some Dir \<and> take (length p) (butlast q) = p"
    then have "length p \<le> length (butlast q)" by (metis length_take min.cobounded2 min.commute)
    then have "take (length p) q = take (length p) (butlast q)"
      by (simp add: butlast_conv_take)
    with a keep show False by simp
  qed
  with par na[of "butlast q"] show "node_at (rmdirSyncRecursive p d) (butlast q) = Some Dir" by simp
qed

lemma wf_fold_rmdir:
  "wf_disk d \<Longrightarrow> wf_disk (fold (\<lambda>dir. rmdirSyncRecursive (r @ [dir])) xs d)"
  by (induction xs arbitrary: d) (simp_all add: wf_rmdir)

lemma node_at_fold_rmdir_root:
  "node_at (fold (\<lambda>dir. rmdirSyncRecursive (r @ [dir])) xs d) r = node_at d r"
  by (induction xs arbitrary: d) (simp_all add: node_at_rmdir)

lemma prune_leaves:
  assumes wf: "wf_disk d" and pr: "prune opts dat d = Inr d'"
  shows "wf_disk d'" and "node_at d' (machinesDir opts) = Some Dir"
    and "node_at d' (machinesDir opts @ [x]) = Some Dir \<Longrightarrow> x \<in> fst ` set dat"
proof -
  let ?m = "machinesDir opts"
  define d1 where "d1 = (case mkdirsSync ?m d of Inl e \<Rightarrow> d | Inr d' \<Rightarrow> d')"
  from pr obtain names where
    rd: "readdirSync ?m d1 = Inr names" and
    d': "d' = fold (\<lambda>dir. rmdirSyncRecursive (?m @ [dir])) (difference names (map fst dat)) d1"
    by (auto simp: prune_def Let_def d1_def split: sum.splits)
  have wf1: "wf_disk d1"
    unfolding d1_def mkdirsSync_def
    using wf wf_mkdirs_from[OF wf, of "[]" ?m] by (auto simp: node_at_def split: sum.splits)
  show "wf_disk d'" unfolding d' using wf1 by (rule wf_fold_rmdir)
  from rd have "node_at d1 ?m = Some Dir"
    by (auto simp: readdirSync_def split: option.splits node.splits)
  then show "node_at d' ?m = Some Dir" by (simp add: d' node_at_fold_rmdir_root)
  show "x \<in> fst ` set dat" if "node_at d' (?m @ [x]) = Some Dir"
    using prune_pack_dirs[OF pr] that by (auto simp: pack_dirs_def)
qed

lemma writePacks_disk_settles:
  assumes "canonical beautify" and "distinct (map fst dat)"
      and "wf_disk (disk_of w)" and "node_at (disk_of w) (machinesDir opts) = Some Dir"
      and "\<And>x. node_at (disk_of w) (machinesDir opts @ [x]) = Some Dir \<Longrightarrow> x \<in> fst ` set dat"
      and "writePacks parse beautify opts dat w = (w', Returned ())"
      and "\<forall>item \<in> set dat. reads_back parse beautify (snd item)"
  shows "wf_disk (disk_of w')" and "node_at (disk_of w') (machinesDir opts) = Some Dir"
    and "\<forall>item \<in> set dat. settled parse (machinesDir opts) (disk_of w') item"
    and "\<And>x. node_at (disk_of w') (machinesDir opts @ [x]) = Some Dir \<Longrightarrow> x \<in> fst ` set dat"
proof -
  let ?w0 = "begin_each (length dat) w"
  have all: "wf_disk (disk_of w') \<and> node_at (disk_of w') (machinesDir opts) = Some Dir
     \<and> (\<forall>item \<in> set dat. settled parse (machinesDir opts) (disk_of w') item)
     \<and> (\<forall>x. node_at (disk_of w') (machinesDir opts @ [x]) = Some Dir \<longrightarrow> x \<in> fst ` set dat)"
  proof (cases "dat = []")
    case True
    with assms(6) have "disk_of w' = disk_of w" by (auto simp: writePacks_def begin_each_def Let_def)
    with True assms(3,4,5) show ?thesis by auto
  next
    case False
    with assms(6) have l: "each_loop parse beautify opts dat ?w0 = (w', Returned ())"
      by (simp add: writePacks_def Let_def)
    have "wf_disk (disk_of ?w0)" "node_at (disk_of ?w0) (machinesDir opts) = Some Dir"
      using assms(3,4) by (simp_all add: begin_each_def)
    from each_loop_settles[OF assms(1,2) this l assms(7)] assms(5) show ?thesis
      by (auto simp: begin_each_def)
  qed
  from all show "wf_disk (disk_of w')" "node_at (disk_of w') (machinesDir opts) = Some Dir"
    "\<forall>item \<in> set dat. settled parse (machinesDir opts) (disk_of w') item" by simp_all
  from all show "\<And>x. node_at (disk_of w') (machinesDir opts @ [x]) = Some Dir \<Longrightarrow> x \<in> fst ` set dat"
    by simp
qed

lemma writePacks_noop:
  assumes "\<forall>item \<in> set dat. versioned (snd item) \<and> settled parse (machinesDir opts) (disk_of w) item"
  shows "\<exists>w'. writePacks parse beautify opts dat w = (w', Returned ())
        \<and> disk_of w' = disk_of w \<and> queue_of w' = queue_of w"
proof (cases "dat = []")
  case True then show ?thesis by (simp add: writePacks_def begin_each_def Let_def)
next
  case False
  let ?w0 = "begin_each (length dat) w"
  have "\<forall>item \<in> set dat. versioned (snd item) \<and> settled parse (machinesDir opts) (disk_of ?w0) item"
    using assms by (simp add: begin_each_def)
  from each_loop_noop[OF this, of beautify] False show ?thesis
    by (simp add: writePacks_def Let_def begin_each_def)
qed

lemma reload_unfold:
  "reloadAllMachinePacks parse beautify opts dat w =
     (case prune opts dat (disk_of w) of
        Inl e \<Rightarrow> (w, Thrown e)
      | Inr d \<Rightarrow> writePacks parse beautify opts dat (w\<lparr>disk_of := d\<rparr>))"
  by (simp add: reloadAllMachinePacks_def cleanPacks_def cleanPacks_args_def split: sum.splits)

text \<open>
  C1, as amended. Let the packs of the document have different plain names, let the
  unit keys of each pack have different base names, which are plain and not
  \<^verbatim>\<open>__proto__\<close>, and versions that are not empty; let the beautifier keep the texts of
  different JSON values different, let the manifest of each pack, as it is written, be
  read back as the value it was written from, and let every entry of the file tree lie
  in a directory. If the reconciliation (\<open>cleanPacks\<close>, then \<open>writePacks\<close>) returns, then
  run again on the disk it left, with the same document, it returns too and leaves the
  disk as it was, the record of mutations included: no unit file, no manifest and no
  index file is written, nothing is made or removed, and no install is pushed.
\<close>

theorem second_run_writes_nothing:
  assumes "canonical beautify" and "all_read_back parse beautify dat"
      and "well_keyed dat" and "wf_disk (disk_of w)"
      and "reloadAllMachinePacks parse beautify opts dat w = (w1, Returned ())"
      and "disk_of v = disk_of w1"
  shows "\<exists>w2. reloadAllMachinePacks parse beautify opts dat v = (w2, Returned ())
          \<and> disk_of w2 = disk_of w1 \<and> writes (disk_of w2) = writes (disk_of w1)
          \<and> queue_of w2 = queue_of v"
proof -
  from assms(3) have dist: "distinct (map fst dat)"
    and vers: "\<forall>item \<in> set dat. versioned (snd item)"
    by (simp_all add: well_keyed_def list_all_iff)
  from assms(2) have rb: "\<forall>item \<in> set dat. reads_back parse beautify (snd item)"
    by (simp add: all_read_back_def list_all_iff)
  obtain dA where
    pr: "prune opts dat (disk_of w) = Inr dA" and
    wps: "writePacks parse beautify opts dat (w\<lparr>disk_of := dA\<rparr>) = (w1, Returned ())"
  proof (cases "prune opts dat (disk_of w)")
    case (Inl e)
    with assms(5) show ?thesis by (simp add: reload_unfold)
  next
    case (Inr dA)
    with assms(5) have "writePacks parse beautify opts dat (w\<lparr>disk_of := dA\<rparr>) = (w1, Returned ())"
      by (simp add: reload_unfold)
    with Inr that show ?thesis by blast
  qed
  note p = prune_leaves[OF assms(4) pr]
  let ?wA = "w\<lparr>disk_of := dA\<rparr>"
  have a1: "wf_disk (disk_of ?wA)" using p(1) by simp
  have a2: "node_at (disk_of ?wA) (machinesDir opts) = Some Dir" using p(2) by simp
  have a3: "\<And>x. node_at (disk_of ?wA) (machinesDir opts @ [x]) = Some Dir \<Longrightarrow> x \<in> fst ` set dat"
    using p(3) by simp
  note s = writePacks_disk_settles[OF assms(1) dist a1 a2 a3 wps rb]
  have pr2: "prune opts dat (disk_of v) = Inr (disk_of v)"
  proof (rule prune_noop)
    show "wf_disk (disk_of v)" using s(1) assms(6) by simp
    show "node_at (disk_of v) (machinesDir opts) = Some Dir" using s(2) assms(6) by simp
    show "\<And>x. node_at (disk_of v) (machinesDir opts @ [x]) = Some Dir \<Longrightarrow> x \<in> fst ` set dat"
      using s(4) assms(6) by simp
  qed
  have v': "v\<lparr>disk_of := disk_of v\<rparr> = v" by simp
  have "\<forall>item \<in> set dat. versioned (snd item) \<and> settled parse (machinesDir opts) (disk_of v) item"
    using vers s(3) assms(6) by simp
  from writePacks_noop[OF this, of beautify] obtain w2 where
    w2: "writePacks parse beautify opts dat v = (w2, Returned ())"
    "disk_of w2 = disk_of v" "queue_of w2 = queue_of v" by blast
  have "reloadAllMachinePacks parse beautify opts dat v = (w2, Returned ())"
    by (simp add: reload_unfold pr2 v' w2(1))
  with w2 assms(6) show ?thesis by simp
qed

lemma canonical_id: "canonical (\<lambda>s. s)"
  by (auto simp: canonical_def dest: stringify_inj)

theorem second_run_writes_nothing_witness:
  "canonical (\<lambda>s. s) \<and> all_read_back ex_parse (\<lambda>s. s) ex_doc_u \<and> well_keyed ex_doc_u
   \<and> wf_disk (disk_of (world0 ex_empty))
   \<and> reloadAllMachinePacks ex_parse (\<lambda>s. s) ex_opts ex_doc_u (world0 ex_empty) = (ex_world_u_done, Returned ())
   \<and> (\<exists>w2. reloadAllMachinePacks ex_parse (\<lambda>s. s) ex_opts ex_doc_u ex_world_u_done = (w2, Returned ())
          \<and> disk_of w2 = ex_disk_u_done \<and> writes (disk_of w2) = writes ex_disk_u_done
          \<and> queue_of w2 = queue_of ex_world_u_done)"
proof -
  have rb: "all_read_back ex_parse (\<lambda>s. s) ex_doc_u" by code_simp
  have wk: "well_keyed ex_doc_u" by code_simp
  have wf: "wf_disk (disk_of (world0 ex_empty))"
    by (rule wf_diskI) code_simp
  have h: "reloadAllMachinePacks ex_parse (\<lambda>s. s) ex_opts ex_doc_u (world0 ex_empty) = (ex_world_u_done, Returned ())"
    by code_simp
  have d: "disk_of ex_world_u_done = ex_disk_u_done" by (simp add: ex_world_u_done_def)
  from second_run_writes_nothing[OF canonical_id rb wk wf h refl] d
  have "\<exists>w2. reloadAllMachinePacks ex_parse (\<lambda>s. s) ex_opts ex_doc_u ex_world_u_done = (w2, Returned ())
          \<and> disk_of w2 = ex_disk_u_done \<and> writes (disk_of w2) = writes ex_disk_u_done
          \<and> queue_of w2 = queue_of ex_world_u_done" by simp
  with canonical_id rb wk wf h show ?thesis by blast
qed

text \<open>
  The claim as stated fails for a document that holds one unit in two versions: the
  manifest records the later version, so the second run finds the earlier key changed
  and writes the unit file again (with the body of the earlier version).
\<close>

theorem second_run_counterexample:
  "reloadAllMachinePacks ex_parse (\<lambda>s. s) ex_opts ex_doc_twice (world0 ex_empty) = (ex_world_twice_done, Returned ())
   \<and> snd (reloadAllMachinePacks ex_parse (\<lambda>s. s) ex_opts ex_doc_twice ex_world_twice_done) = Returned ()
   \<and> writes (disk_of (fst (reloadAllMachinePacks ex_parse (\<lambda>s. s) ex_opts ex_doc_twice ex_world_twice_done)))
      = writes (disk_of ex_world_twice_done) @
          [WriteFile [''node_machines'', ''a'', ''u.js''] (Text (render [(''fn'', JStr ''f'')]))]"
  by code_simp

end
